theory Spec2Isabelle
  imports Main
begin

section \<open>Python strings\<close>

text \<open>
  A Python \<^verbatim>\<open>str\<close> is a sequence of Unicode code points. It is modelled as a list of
  natural numbers, one per code point, so that \<^verbatim>\<open>len\<close>, slicing and \<^verbatim>\<open>find\<close> count what
  Python counts. \<open>ustr\<close> turns an ASCII literal into such a string.
\<close>

type_synonym ustring = "nat list"

definition ustr :: "string \<Rightarrow> ustring" where
  "ustr s = map of_char s"

text \<open>
  The characters for which Python's \<^verbatim>\<open>str.isspace\<close> holds. Both \<^verbatim>\<open>str.strip()\<close> and the
  class \<^verbatim>\<open>\s\<close> of a \<^verbatim>\<open>str\<close> pattern use this set.
\<close>

definition is_space :: "nat \<Rightarrow> bool" where
  "is_space c \<longleftrightarrow>
     (9 \<le> c \<and> c \<le> 13) \<or> (28 \<le> c \<and> c \<le> 32) \<or> c = 133 \<or> c = 160 \<or> c = 5760 \<or>
     (8192 \<le> c \<and> c \<le> 8202) \<or> c = 8232 \<or> c = 8233 \<or> c = 8239 \<or> c = 8287 \<or> c = 12288"

definition py_strip :: "ustring \<Rightarrow> ustring" where
  "py_strip s = rev (dropWhile is_space (rev (dropWhile is_space s)))"

text \<open>\<^verbatim>\<open>s.find(c)\<close> and \<^verbatim>\<open>s.rfind(c)\<close> for a single character; \<open>None\<close> stands for -1.\<close>

fun py_find :: "nat \<Rightarrow> ustring \<Rightarrow> nat option" where
  "py_find c [] = None"
| "py_find c (x # xs) = (if x = c then Some 0 else map_option Suc (py_find c xs))"

fun py_rfind :: "nat \<Rightarrow> ustring \<Rightarrow> nat option" where
  "py_rfind c [] = None"
| "py_rfind c (x # xs) =
     (case py_rfind c xs of
        Some i \<Rightarrow> Some (Suc i)
      | None \<Rightarrow> (if x = c then Some 0 else None))"

text \<open>The slice \<^verbatim>\<open>s[i:j]\<close> for non-negative bounds; it is empty when \<open>j \<le> i\<close>.\<close>

definition py_slice :: "ustring \<Rightarrow> nat \<Rightarrow> nat \<Rightarrow> ustring" where
  "py_slice s i j = drop i (take j s)"

fun starts_with :: "ustring \<Rightarrow> ustring \<Rightarrow> bool" where
  "starts_with [] s = True"
| "starts_with (p # ps) [] = False"
| "starts_with (p # ps) (c # cs) = (p = c \<and> starts_with ps cs)"

section \<open>Cleaning the raw response\<close>

text \<open>The code point of the backtick, of the braces and of the line feed.\<close>

abbreviation BACKTICK :: nat where "BACKTICK \<equiv> 96"
abbreviation LBRACE :: nat where "LBRACE \<equiv> 123"
abbreviation RBRACE :: nat where "RBRACE \<equiv> 125"
abbreviation NEWLINE :: nat where "NEWLINE \<equiv> 10"

definition fence :: ustring where
  "fence = [BACKTICK, BACKTICK, BACKTICK]"

text \<open>The optional group \<^verbatim>\<open>(?:json)?\<close>: greedy, it consumes the word when it is there.\<close>

definition drop_json :: "ustring \<Rightarrow> ustring" where
  "drop_json s = (if starts_with [106, 115, 111, 110] s then drop 4 s else s)"

text \<open>
  \<^verbatim>\<open>re.sub(r'```(?:json)?\s*', '', s)\<close>: scanning from the left, every occurrence of three
  backticks is removed together with a following \<^verbatim>\<open>json\<close> and the whitespace after it;
  the scan resumes after the removed text. Every other character is kept.
\<close>

lemma length_drop_json: "length (drop_json s) \<le> length s"
  by (simp add: drop_json_def)

function sub_open_fence :: "ustring \<Rightarrow> ustring" where
  "sub_open_fence [] = []"
| "sub_open_fence (c # cs) =
     (if starts_with fence (c # cs)
      then sub_open_fence (dropWhile is_space (drop_json (drop 3 (c # cs))))
      else c # sub_open_fence cs)"
  by pat_completeness auto
termination
proof (relation "measure length")
  fix c :: nat and cs :: ustring
  assume "starts_with fence (c # cs)"
  have "length (dropWhile is_space (drop_json (drop 3 (c # cs))))
          \<le> length (drop_json (drop 3 (c # cs)))"
    by (rule length_dropWhile_le)
  also have "\<dots> \<le> length (drop 3 (c # cs))"
    by (rule length_drop_json)
  also have "\<dots> < length (c # cs)"
    by simp
  finally show "(dropWhile is_space (drop_json (drop 3 (c # cs))), c # cs) \<in> measure length"
    by simp
qed simp_all

text \<open>
  \<^verbatim>\<open>$\<close> under \<^verbatim>\<open>re.MULTILINE\<close> holds at the end of the string and before a line feed.
\<close>

definition at_eol :: "ustring \<Rightarrow> bool" where
  "at_eol s = (case s of [] \<Rightarrow> True | c # _ \<Rightarrow> c = NEWLINE)"

text \<open>
  \<^verbatim>\<open>\s*$\<close> at the start of \<open>s\<close>: the star is greedy and backtracks, so the match takes the
  longest run of whitespace after which \<^verbatim>\<open>$\<close> holds. The result is the text after the
  match, or \<open>None\<close> when no run of whitespace ends where \<^verbatim>\<open>$\<close> holds.
\<close>

fun match_spaces_eol :: "ustring \<Rightarrow> ustring option" where
  "match_spaces_eol [] = Some []"
| "match_spaces_eol (c # cs) =
     (case (if is_space c then match_spaces_eol cs else None) of
        Some r \<Rightarrow> Some r
      | None \<Rightarrow> (if at_eol (c # cs) then Some (c # cs) else None))"

lemma match_spaces_eol_length: "match_spaces_eol s = Some r \<Longrightarrow> length r \<le> length s"
  by (induction s arbitrary: r) (auto split: option.splits if_splits)

text \<open>\<^verbatim>\<open>re.sub(r'```\s*$', '', s, flags=re.MULTILINE)\<close>.\<close>

function sub_close_fence :: "ustring \<Rightarrow> ustring" where
  "sub_close_fence [] = []"
| "sub_close_fence (c # cs) =
     (case (if starts_with fence (c # cs) then match_spaces_eol (drop 3 (c # cs)) else None) of
        Some r \<Rightarrow> sub_close_fence r
      | None \<Rightarrow> c # sub_close_fence cs)"
  by pat_completeness auto
termination
  by (relation "measure length") (auto split: if_splits dest!: match_spaces_eol_length)

section \<open>Decoding JSON\<close>

text \<open>
  \<^verbatim>\<open>json.loads\<close> belongs to the Python standard library, not to this repository. It is
  modelled here as a recursive-descent decoder after the library's scanner, so that the
  parser can be evaluated on concrete responses. What the decoder returns:
  \<^item> \<^verbatim>\<open>None\<close>, \<^verbatim>\<open>True\<close>/\<^verbatim>\<open>False\<close>, a \<^verbatim>\<open>str\<close>, a \<^verbatim>\<open>list\<close>, a \<^verbatim>\<open>dict\<close>;
  \<^item> a number, kept as the literal the scanner matched (\<^verbatim>\<open>NaN\<close>, \<^verbatim>\<open>Infinity\<close> and
    \<^verbatim>\<open>-Infinity\<close> included): equal literals denote equal Python numbers, and no claim
    depends on the numeric value;
  \<^item> a \<^verbatim>\<open>dict\<close> as an association list with distinct keys, in insertion order.
  The interpreter's resource limits (recursion depth, the digit limit of \<^verbatim>\<open>int\<close>) are
  not modelled.
\<close>

datatype json =
    JNull
  | JBool bool
  | JNum ustring
  | JStr ustring
  | JArr "json list"
  | JObj "(ustring \<times> json) list"

text \<open>The whitespace the decoder skips: space, tab, line feed, carriage return.\<close>

definition is_json_ws :: "nat \<Rightarrow> bool" where
  "is_json_ws c \<longleftrightarrow> c = 32 \<or> c = 9 \<or> c = 10 \<or> c = 13"

definition skip_ws :: "ustring \<Rightarrow> ustring" where
  "skip_ws s = dropWhile is_json_ws s"

subsection \<open>Strings\<close>

definition is_digit :: "nat \<Rightarrow> bool" where
  "is_digit c \<longleftrightarrow> 48 \<le> c \<and> c \<le> 57"

definition hex_val :: "nat \<Rightarrow> nat option" where
  "hex_val c =
     (if 48 \<le> c \<and> c \<le> 57 then Some (c - 48)
      else if 97 \<le> c \<and> c \<le> 102 then Some (c - 87)
      else if 65 \<le> c \<and> c \<le> 70 then Some (c - 55)
      else None)"

fun hex4 :: "ustring \<Rightarrow> nat option" where
  "hex4 (a # b # c # d # _) =
     (case (hex_val a, hex_val b, hex_val c, hex_val d) of
        (Some x, Some y, Some z, Some w) \<Rightarrow> Some (((x * 16 + y) * 16 + z) * 16 + w)
      | _ \<Rightarrow> None)"
| "hex4 _ = None"

definition unescape :: "nat \<Rightarrow> nat option" where
  "unescape e =
     (if e = 34 then Some 34
      else if e = 92 then Some 92
      else if e = 47 then Some 47
      else if e = 98 then Some 8
      else if e = 102 then Some 12
      else if e = 110 then Some 10
      else if e = 114 then Some 13
      else if e = 116 then Some 9
      else None)"

definition is_high_surrogate :: "nat \<Rightarrow> bool" where
  "is_high_surrogate u \<longleftrightarrow> 55296 \<le> u \<and> u \<le> 56319"

definition is_low_surrogate :: "nat \<Rightarrow> bool" where
  "is_low_surrogate u \<longleftrightarrow> 56320 \<le> u \<and> u \<le> 57343"

definition join_surrogates :: "nat \<Rightarrow> nat \<Rightarrow> nat" where
  "join_surrogates u u2 = 65536 + (u - 55296) * 1024 + (u2 - 56320)"

text \<open>Prepends an element to the list a scanner returns, keeping the remaining input.\<close>

definition emit :: "'a \<Rightarrow> ('a list \<times> 'b) option \<Rightarrow> ('a list \<times> 'b) option" where
  "emit x res = map_option (\<lambda>(xs, r). (x # xs, r)) res"

text \<open>
  The body of a string literal, after the opening quote (the library's \<^verbatim>\<open>scanstring\<close>
  in strict mode): the decoded string and the input after the closing quote. A control
  character, an unknown escape, fewer than four hexadecimal digits after \<^verbatim>\<open>\u\<close> and a
  missing closing quote are errors. A high surrogate followed by an escaped low surrogate
  is one code point; any other surrogate stays as it is.
\<close>

function scan_string :: "ustring \<Rightarrow> (ustring \<times> ustring) option" where
  "scan_string [] = None"
| "scan_string (c # cs) =
     (if c = 34 then Some ([], cs)
      else if c = 92 then
        (case cs of
           [] \<Rightarrow> None
         | e # r \<Rightarrow>
             if e = 117 then
               (case hex4 r of
                  None \<Rightarrow> None
                | Some u \<Rightarrow>
                    (case (if is_high_surrogate u \<and> starts_with [92, 117] (drop 4 r)
                           then hex4 (drop 6 r) else None) of
                       Some u2 \<Rightarrow>
                         if is_low_surrogate u2
                         then emit (join_surrogates u u2) (scan_string (drop 10 r))
                         else emit u (scan_string (drop 4 r))
                     | None \<Rightarrow> emit u (scan_string (drop 4 r))))
             else (case unescape e of
                     None \<Rightarrow> None
                   | Some x \<Rightarrow> emit x (scan_string r)))
      else if c < 32 then None
      else emit c (scan_string cs))"
  by pat_completeness auto
termination
  by (relation "measure length") auto

lemma scan_string_length: "scan_string s = Some (str, r) \<Longrightarrow> length r < length s"
proof (induction s arbitrary: str r rule: scan_string.induct)
  case 1
  then show ?case by simp
next
  case (2 c cs)
  show ?case
    using "2.prems" "2.IH"
    apply (simp add: emit_def split: if_splits list.splits option.splits)
    apply (force+)?
    done
qed

subsection \<open>Numbers\<close>

text \<open>
  The scanner's number pattern
  \<^verbatim>\<open>(-?(?:0|[1-9][0-9]*))(\.[0-9]+)?([eE][-+]?[0-9]+)?\<close>: the integer part, then the
  fraction and the exponent where they are complete.
\<close>

definition match_int :: "ustring \<Rightarrow> (ustring \<times> ustring) option" where
  "match_int s =
     (case s of
        [] \<Rightarrow> None
      | d # r \<Rightarrow>
          if d = 48 then Some ([d], r)
          else if 49 \<le> d \<and> d \<le> 57
          then Some (d # takeWhile is_digit r, dropWhile is_digit r)
          else None)"

definition match_frac :: "ustring \<Rightarrow> ustring \<times> ustring" where
  "match_frac s =
     (case s of
        [] \<Rightarrow> ([], s)
      | p # r \<Rightarrow>
          if p = 46 \<and> takeWhile is_digit r \<noteq> []
          then (p # takeWhile is_digit r, dropWhile is_digit r)
          else ([], s))"

definition match_exp :: "ustring \<Rightarrow> ustring \<times> ustring" where
  "match_exp s =
     (case s of
        [] \<Rightarrow> ([], s)
      | e # r \<Rightarrow>
          if e = 101 \<or> e = 69 then
            (let sign = (case r of [] \<Rightarrow> [] | g # _ \<Rightarrow> if g = 43 \<or> g = 45 then [g] else []);
                 r1 = drop (length sign) r
             in if takeWhile is_digit r1 \<noteq> []
                then (e # sign @ takeWhile is_digit r1, dropWhile is_digit r1)
                else ([], s))
          else ([], s))"

definition match_number :: "ustring \<Rightarrow> (ustring \<times> ustring) option" where
  "match_number s =
     (let sign = (if starts_with [45] s then [45] else []) in
      case match_int (drop (length sign) s) of
        None \<Rightarrow> None
      | Some (ip, r) \<Rightarrow>
          (let (fp, r1) = match_frac r; (ep, r2) = match_exp r1
           in Some (sign @ ip @ fp @ ep, r2)))"

subsection \<open>Values\<close>

text \<open>
  \<^verbatim>\<open>d[k] = v\<close>: a key that is present keeps its position and takes the new value, a new
  key goes to the end.
\<close>

fun dict_set :: "(ustring \<times> json) list \<Rightarrow> ustring \<Rightarrow> json \<Rightarrow> (ustring \<times> json) list" where
  "dict_set [] k v = [(k, v)]"
| "dict_set ((k', v') # d) k v = (if k' = k then (k', v) # d else (k', v') # dict_set d k v)"

definition dict_of_pairs :: "(ustring \<times> json) list \<Rightarrow> (ustring \<times> json) list" where
  "dict_of_pairs ps = foldl (\<lambda>d (k, v). dict_set d k v) [] ps"

text \<open>The literals \<^verbatim>\<open>null\<close>, \<^verbatim>\<open>true\<close>, \<^verbatim>\<open>false\<close>, \<^verbatim>\<open>NaN\<close>, \<^verbatim>\<open>Infinity\<close>, \<^verbatim>\<open>-Infinity\<close>.\<close>

definition parse_constant :: "ustring \<Rightarrow> (json \<times> ustring) option" where
  "parse_constant s =
     (if starts_with [110, 117, 108, 108] s then Some (JNull, drop 4 s)
      else if starts_with [116, 114, 117, 101] s then Some (JBool True, drop 4 s)
      else if starts_with [102, 97, 108, 115, 101] s then Some (JBool False, drop 5 s)
      else if starts_with [78, 97, 78] s then Some (JNum [78, 97, 78], drop 3 s)
      else if starts_with [73, 110, 102, 105, 110, 105, 116, 121] s
        then Some (JNum [73, 110, 102, 105, 110, 105, 116, 121], drop 8 s)
      else if starts_with [45, 73, 110, 102, 105, 110, 105, 116, 121] s
        then Some (JNum [45, 73, 110, 102, 105, 110, 105, 116, 121], drop 9 s)
      else None)"

definition parse_scalar :: "ustring \<Rightarrow> (json \<times> ustring) option" where
  "parse_scalar s =
     (case parse_constant s of
        Some res \<Rightarrow> Some res
      | None \<Rightarrow> map_option (\<lambda>(lit, r). (JNum lit, r)) (match_number s))"

text \<open>
  \<open>parse_value\<close> scans one value at the start of the input (the library's
  \<^verbatim>\<open>scan_once\<close>). \<open>parse_elems\<close> is the loop over the elements of a non-empty array and
  \<open>parse_members\<close> the loop over the members of a non-empty object; both return the input
  after the closing bracket. \<open>None\<close> is a \<^verbatim>\<open>JSONDecodeError\<close>.
\<close>

function (sequential) parse_value :: "ustring \<Rightarrow> (json \<times> ustring) option"
  and parse_elems :: "ustring \<Rightarrow> (json list \<times> ustring) option"
  and parse_members :: "ustring \<Rightarrow> ((ustring \<times> json) list \<times> ustring) option"
where
  "parse_value [] = None"
| "parse_value (c # cs) =
     (if c = 34 then map_option (\<lambda>(str, r). (JStr str, r)) (scan_string cs)
      else if c = 123 then
        (case skip_ws cs of
           [] \<Rightarrow> None
         | d # r \<Rightarrow>
             if d = 125 then Some (JObj [], r)
             else map_option (\<lambda>(ps, r1). (JObj (dict_of_pairs ps), r1)) (parse_members (d # r)))
      else if c = 91 then
        (case skip_ws cs of
           [] \<Rightarrow> None
         | d # r \<Rightarrow>
             if d = 93 then Some (JArr [], r)
             else map_option (\<lambda>(vs, r1). (JArr vs, r1)) (parse_elems (d # r)))
      else parse_scalar (c # cs))"
| "parse_elems s =
     (case parse_value s of
        None \<Rightarrow> None
      | Some (v, r) \<Rightarrow>
          (case skip_ws r of
             [] \<Rightarrow> None
           | d # r1 \<Rightarrow>
               if d = 93 then Some ([v], r1)
               else if d = 44 then emit v (parse_elems (skip_ws r1))
               else None))"
| "parse_members [] = None"
| "parse_members (c # cs) =
     (if c = 34 then
        (case scan_string cs of
           None \<Rightarrow> None
         | Some (key, r) \<Rightarrow>
             (case skip_ws r of
                [] \<Rightarrow> None
              | p # r1 \<Rightarrow>
                  if p = 58 then
                    (case parse_value (skip_ws r1) of
                       None \<Rightarrow> None
                     | Some (v, r2) \<Rightarrow>
                         (case skip_ws r2 of
                            [] \<Rightarrow> None
                          | d # r3 \<Rightarrow>
                              if d = 125 then Some ([(key, v)], r3)
                              else if d = 44 then emit (key, v) (parse_members (skip_ws r3))
                              else None))
                  else None))
      else None)"
  by pat_completeness auto

text \<open>
  The loops continue on the input a value has left over, so termination needs that every
  scan consumes input.
\<close>

lemma skip_ws_length: "length (skip_ws s) \<le> length s"
  by (simp add: skip_ws_def length_dropWhile_le)

lemma skip_ws_Cons_length: "skip_ws s = d # r \<Longrightarrow> length r < length s"
  using skip_ws_length [of s] by simp

lemma emit_Some: "emit x res = Some (xs, r) \<longleftrightarrow> (\<exists>ys. xs = x # ys \<and> res = Some (ys, r))"
  by (cases res) (auto simp: emit_def)

lemma parse_constant_length: "parse_constant s = Some (v, r) \<Longrightarrow> length r < length s"
  by (cases s) (auto simp: parse_constant_def split: if_splits)

lemma match_int_length: "match_int s = Some (ip, r) \<Longrightarrow> length r < length s"
  using length_dropWhile_le [of is_digit "tl s"]
  by (cases s) (auto simp: match_int_def split: if_splits)

lemma match_frac_length: "match_frac s = (fp, r) \<Longrightarrow> length r \<le> length s"
  using length_dropWhile_le [of is_digit "tl s"]
  by (cases s) (auto simp: match_frac_def split: if_splits)

lemma match_exp_length: "match_exp s = (ep, r) \<Longrightarrow> length r \<le> length s"
proof (cases s)
  case Nil
  then show "match_exp s = (ep, r) \<Longrightarrow> length r \<le> length s"
    by (simp add: match_exp_def)
next
  case (Cons e t)
  assume eq: "match_exp s = (ep, r)"
  have "length (dropWhile is_digit (drop n t)) \<le> length t" for n
    using length_dropWhile_le [of is_digit "drop n t"] by simp
  from this [of 0] this [of 1] eq Cons show "length r \<le> length s"
    by (auto simp: match_exp_def Let_def split: if_splits list.splits)
qed

lemma match_number_length: "match_number s = Some (lit, r) \<Longrightarrow> length r < length s"
proof -
  assume eq: "match_number s = Some (lit, r)"
  define sign :: ustring where "sign = (if starts_with [45] s then [45] else [])"
  from eq obtain ip r0 where mi: "match_int (drop (length sign) s) = Some (ip, r0)"
    by (cases "match_int (drop (length sign) s)") (auto simp: match_number_def sign_def Let_def)
  obtain fp r1 where mf: "match_frac r0 = (fp, r1)"
    by (cases "match_frac r0")
  obtain ep r2 where me: "match_exp r1 = (ep, r2)"
    by (cases "match_exp r1")
  from eq mi mf me have "r = r2"
    by (simp add: match_number_def sign_def Let_def)
  moreover have "length r0 < length s"
    using match_int_length [OF mi] by simp
  ultimately show ?thesis
    using match_frac_length [OF mf] match_exp_length [OF me] by simp
qed

lemma parse_scalar_length: "parse_scalar s = Some (v, r) \<Longrightarrow> length r < length s"
  by (auto simp: parse_scalar_def split: option.splits
        dest: parse_constant_length match_number_length)

lemma parse_dom_length:
  "parse_value_parse_elems_parse_members_dom (Inl s) \<Longrightarrow>
     (\<forall>v r. parse_value s = Some (v, r) \<longrightarrow> length r < length s)"
  "parse_value_parse_elems_parse_members_dom (Inr (Inl s1)) \<Longrightarrow>
     (\<forall>vs r. parse_elems s1 = Some (vs, r) \<longrightarrow> length r < length s1)"
  "parse_value_parse_elems_parse_members_dom (Inr (Inr s2)) \<Longrightarrow>
     (\<forall>ps r. parse_members s2 = Some (ps, r) \<longrightarrow> length r < length s2)"
proof (induction s and s1 and s2 rule: parse_value_parse_elems_parse_members.pinduct)
  case 1
  then show ?case by (simp add: parse_value.psimps)
next
  case (2 c cs)
  note dom = "2.hyps"
  show ?case
  proof (intro allI impI)
    fix v r
    assume eq: "parse_value (c # cs) = Some (v, r)"
    consider (str) "c = 34" | (obj) "c \<noteq> 34" "c = 123" | (arr) "c \<noteq> 34" "c \<noteq> 123" "c = 91"
      | (scalar) "c \<noteq> 34" "c \<noteq> 123" "c \<noteq> 91"
      by blast
    then show "length r < length (c # cs)"
    proof cases
      case str
      with eq dom obtain str where "scan_string cs = Some (str, r)"
        by (auto simp: parse_value.psimps)
      then show ?thesis
        by (auto dest: scan_string_length)
    next
      case obj
      with eq dom obtain d r0 where ws: "skip_ws cs = d # r0"
        by (cases "skip_ws cs") (auto simp: parse_value.psimps)
      have le: "length r0 < length cs"
        using ws by (rule skip_ws_Cons_length)
      show ?thesis
      proof (cases "d = 125")
        case True
        with eq dom obj ws have "r = r0"
          by (simp add: parse_value.psimps)
        with le show ?thesis by simp
      next
        case False
        with eq dom obj ws obtain ps where "parse_members (d # r0) = Some (ps, r)"
          by (auto simp: parse_value.psimps)
        with "2.IH"(1) [OF obj ws False] have "length r < length (d # r0)"
          by blast
        with le show ?thesis by simp
      qed
    next
      case arr
      with eq dom obtain d r0 where ws: "skip_ws cs = d # r0"
        by (cases "skip_ws cs") (auto simp: parse_value.psimps)
      have le: "length r0 < length cs"
        using ws by (rule skip_ws_Cons_length)
      show ?thesis
      proof (cases "d = 93")
        case True
        with eq dom arr ws have "r = r0"
          by (simp add: parse_value.psimps)
        with le show ?thesis by simp
      next
        case False
        with eq dom arr ws obtain vs where "parse_elems (d # r0) = Some (vs, r)"
          by (auto simp: parse_value.psimps)
        with "2.IH"(2) [OF arr ws False] have "length r < length (d # r0)"
          by blast
        with le show ?thesis by simp
      qed
    next
      case scalar
      with eq dom have "parse_scalar (c # cs) = Some (v, r)"
        by (simp add: parse_value.psimps)
      then show ?thesis
        by (rule parse_scalar_length)
    qed
  qed
next
  case (3 s)
  note dom = "3.hyps"
  show ?case
  proof (intro allI impI)
    fix vs r
    assume eq: "parse_elems s = Some (vs, r)"
    from eq dom obtain v r0 where pv: "parse_value s = Some (v, r0)"
      by (cases "parse_value s") (auto simp: parse_elems.psimps)
    with "3.IH"(1) have l0: "length r0 < length s"
      by blast
    from eq dom pv obtain d r1 where ws: "skip_ws r0 = d # r1"
      by (cases "skip_ws r0") (auto simp: parse_elems.psimps)
    have l1: "length r1 < length r0"
      using ws by (rule skip_ws_Cons_length)
    show "length r < length s"
    proof (cases "d = 93")
      case True
      with eq dom pv ws have "r = r1"
        by (simp add: parse_elems.psimps)
      with l0 l1 show ?thesis by simp
    next
      case False
      with eq dom pv ws have d: "d = 44"
        by (simp add: parse_elems.psimps split: if_splits)
      with eq dom pv ws False obtain ys where "parse_elems (skip_ws r1) = Some (ys, r)"
        by (auto simp: parse_elems.psimps emit_Some)
      with "3.IH"(2) [OF pv refl ws False d] have "length r < length (skip_ws r1)"
        by blast
      with l0 l1 skip_ws_length [of r1] show ?thesis by simp
    qed
  qed
next
  case 4
  then show ?case by (simp add: parse_members.psimps)
next
  case (5 c cs)
  note dom = "5.hyps"
  show ?case
  proof (intro allI impI)
    fix ps r
    assume eq: "parse_members (c # cs) = Some (ps, r)"
    from eq dom have c: "c = 34"
      by (simp add: parse_members.psimps split: if_splits)
    from eq dom c obtain key r0 where ss: "scan_string cs = Some (key, r0)"
      by (cases "scan_string cs") (auto simp: parse_members.psimps)
    have l0: "length r0 < length cs"
      using ss by (rule scan_string_length)
    from eq dom c ss obtain p r1 where ws1: "skip_ws r0 = p # r1"
      by (cases "skip_ws r0") (auto simp: parse_members.psimps)
    have l1: "length r1 < length r0"
      using ws1 by (rule skip_ws_Cons_length)
    from eq dom c ss ws1 have p: "p = 58"
      by (simp add: parse_members.psimps split: if_splits)
    from eq dom c ss ws1 p obtain v r2 where pv: "parse_value (skip_ws r1) = Some (v, r2)"
      by (cases "parse_value (skip_ws r1)") (auto simp: parse_members.psimps)
    with "5.IH"(1) [OF c ss refl ws1 p] have l2: "length r2 < length (skip_ws r1)"
      by blast
    from eq dom c ss ws1 p pv obtain d r3 where ws3: "skip_ws r2 = d # r3"
      by (cases "skip_ws r2") (auto simp: parse_members.psimps)
    have l3: "length r3 < length r2"
      using ws3 by (rule skip_ws_Cons_length)
    show "length r < length (c # cs)"
    proof (cases "d = 125")
      case True
      with eq dom c ss ws1 p pv ws3 have "r = r3"
        by (simp add: parse_members.psimps)
      with l0 l1 l2 l3 skip_ws_length [of r1] show ?thesis by simp
    next
      case False
      with eq dom c ss ws1 p pv ws3 have d: "d = 44"
        by (simp add: parse_members.psimps split: if_splits)
      with eq dom c ss ws1 p pv ws3 False obtain ys
        where "parse_members (skip_ws r3) = Some (ys, r)"
        by (auto simp: parse_members.psimps emit_Some)
      with "5.IH"(2) [OF c ss refl ws1 p pv refl ws3 False d]
      have "length r < length (skip_ws r3)"
        by blast
      with l0 l1 l2 l3 skip_ws_length [of r1] skip_ws_length [of r3] show ?thesis by simp
    qed
  qed
qed

termination parse_value
proof (relation "measure (\<lambda>x. case x of Inl s \<Rightarrow> 2 * length s
                 | Inr (Inl s) \<Rightarrow> 2 * length s + 1 | Inr (Inr s) \<Rightarrow> 2 * length s + 1)",
       goal_cases)
  case 1
  show ?case by simp
next
  case (2 c cs d r)
  then show ?case
    by (auto dest: skip_ws_Cons_length)
next
  case (3 c cs d r)
  then show ?case
    by (auto dest: skip_ws_Cons_length)
next
  case (4 s)
  show ?case by simp
next
  case (5 s x2 v r d r1)
  then show ?case
    using parse_dom_length(1) [of s] skip_ws_Cons_length [of r d r1] skip_ws_length [of r1]
    by auto
next
  case (6 c cs x2 key r p r1)
  then show ?case
    using scan_string_length [of cs key r] skip_ws_Cons_length [of r p r1] skip_ws_length [of r1]
    by auto
next
  case (7 c cs x2 key r p r1 x2a v r2 d r3)
  then show ?case
    using scan_string_length [of cs key r] skip_ws_Cons_length [of r p r1] skip_ws_length [of r1]
      parse_dom_length(1) [of "skip_ws r1"] skip_ws_Cons_length [of r2 d r3]
      skip_ws_length [of r3]
    by auto
qed

text \<open>
  \<^verbatim>\<open>json.loads(s)\<close> for a \<^verbatim>\<open>str\<close>: a leading byte-order mark is rejected, whitespace is
  skipped, one value is scanned, and only whitespace may follow.
\<close>

definition json_loads :: "ustring \<Rightarrow> json option" where
  "json_loads s =
     (if starts_with [65279] s then None
      else case parse_value (skip_ws s) of
             None \<Rightarrow> None
           | Some (v, r) \<Rightarrow> if skip_ws r = [] then Some v else None)"

section \<open>Python values\<close>

text \<open>\<^verbatim>\<open>type(v).__name__\<close>. A number is a \<^verbatim>\<open>float\<close> when its literal has a fraction or an
  exponent, or is one of the three constants.\<close>

definition is_float_literal :: "ustring \<Rightarrow> bool" where
  "is_float_literal lit \<longleftrightarrow> (\<exists>c \<in> set lit. c = 46 \<or> c = 101 \<or> c = 69 \<or> c = 78 \<or> c = 73)"

fun py_type_name :: "json \<Rightarrow> ustring" where
  "py_type_name JNull = ustr ''NoneType''"
| "py_type_name (JBool b) = ustr ''bool''"
| "py_type_name (JNum lit) = (if is_float_literal lit then ustr ''float'' else ustr ''int'')"
| "py_type_name (JStr s) = ustr ''str''"
| "py_type_name (JArr xs) = ustr ''list''"
| "py_type_name (JObj d) = ustr ''dict''"

text \<open>\<^verbatim>\<open>list(d.keys())\<close> and \<^verbatim>\<open>d.get(k)\<close> of a \<^verbatim>\<open>dict\<close>.\<close>

definition keys :: "(ustring \<times> json) list \<Rightarrow> ustring list" where
  "keys d = map fst d"

definition dict_get :: "(ustring \<times> json) list \<Rightarrow> ustring \<Rightarrow> json" where
  "dict_get d k = (case map_of d k of Some v \<Rightarrow> v | None \<Rightarrow> JNull)"

fun is_substring :: "ustring \<Rightarrow> ustring \<Rightarrow> bool" where
  "is_substring p [] = (p = [])"
| "is_substring p (c # cs) = (starts_with p (c # cs) \<or> is_substring p cs)"

section \<open>Errors and effects\<close>

text \<open>
  Every failure is a Python exception. The \<^verbatim>\<open>ValueError\<close>s the module raises itself are
  told apart by their message, and each constructor carries the values its message
  interpolates:
  \<^item> \<open>NoJsonFound\<close>: "No JSON object found in Claude's response", with \<^verbatim>\<open>raw[:200]\<close>;
  \<^item> \<open>MalformedJson\<close>: "Failed to parse Claude's response as JSON", with \<^verbatim>\<open>cleaned[:300]\<close>
    (the decoder's own message is not modelled);
  \<^item> \<open>MissingField\<close>: "Story is missing required top-level field", with the field and
    the keys present;
  \<^item> \<open>WrongType\<close>: "'slides' should be a list, got", with the type name;
  \<^item> \<open>UnknownSlideType\<close>: "Slide i has unknown type", with the 1-based position and the
    value;
  \<^item> \<open>MissingSlideField\<close>: "Slide i (type: t) is missing required field", with the
    position, the type, the field and the fields present.
  The other constructors are exceptions raised by the interpreter and the library.
\<close>

datatype error =
    NoJsonFound ustring
  | MalformedJson ustring
  | MissingField ustring "ustring list"
  | WrongType ustring
  | UnknownSlideType nat json
  | MissingSlideField nat ustring ustring "ustring list"
  | PyTypeError
  | PyAttributeError
  | PyKeyError
  | PyOSError
  | PyIOError
  | PyUnicodeEncodeError

text \<open>
  What a call does besides returning: the lines it prints and the calls it makes to the
  file system, in order.
  \<^item> \<open>PrintCountWarning n\<close>: "Warning: expected 4 slides, got n. Continuing."
  \<^item> \<open>PrintValidated n types\<close>: "Schema validated: n slides, types: ..."
  \<^item> \<open>MakeDirs dir\<close>: \<^verbatim>\<open>os.makedirs(dir, exist_ok=True)\<close>
  \<^item> \<open>OpenWrite path\<close>: \<^verbatim>\<open>open(path, "w", encoding="utf-8")\<close>
  \<^item> \<open>DumpJson path story\<close>: \<^verbatim>\<open>json.dump(story, f, indent=2, ensure_ascii=False)\<close>
  \<^item> \<open>PrintSaved path\<close>: "Story saved to: path"
\<close>

datatype event =
    PrintCountWarning nat
  | PrintValidated nat "json list"
  | MakeDirs ustring
  | OpenWrite ustring
  | DumpJson ustring json
  | PrintSaved ustring

section \<open>The parser\<close>

subsection \<open>\<^verbatim>\<open>_clean_response\<close>\<close>

definition clean_response :: "ustring \<Rightarrow> error + ustring" where
  "clean_response raw =
     (let cleaned = py_strip raw;
          cleaned = sub_open_fence cleaned;
          cleaned = sub_close_fence cleaned
      in case (py_find LBRACE cleaned, py_rfind RBRACE cleaned) of
           (Some brace_start, Some brace_end) \<Rightarrow>
              Inr (py_strip (py_slice cleaned brace_start (brace_end + 1)))
         | _ \<Rightarrow> Inl (NoJsonFound (take 200 raw)))"

subsection \<open>\<^verbatim>\<open>_parse_json\<close>\<close>

definition parse_json :: "ustring \<Rightarrow> error + json" where
  "parse_json cleaned =
     (case json_loads cleaned of
        Some story \<Rightarrow> Inr story
      | None \<Rightarrow> Inl (MalformedJson (take 300 cleaned)))"

subsection \<open>\<^verbatim>\<open>_validate_schema\<close>\<close>

definition required_top_level :: "ustring list" where
  "required_top_level = [ustr ''team'', ustr ''match'', ustr ''date'', ustr ''result'', ustr ''slides'']"

definition required_fields :: "(ustring \<times> ustring list) list" where
  "required_fields =
     [(ustr ''headline'', [ustr ''type'', ustr ''text'', ustr ''subtext'']),
      (ustr ''stat'', [ustr ''type'', ustr ''stat_label'', ustr ''stat_value'', ustr ''narrative'']),
      (ustr ''cta'', [ustr ''type'', ustr ''text'', ustr ''subtext''])]"

text \<open>
  \<^verbatim>\<open>field in story\<close>. The annotation promises a \<^verbatim>\<open>dict\<close>; on a \<^verbatim>\<open>list\<close> the operator
  looks for an equal element, on a \<^verbatim>\<open>str\<close> for a substring, and on every other value it
  raises \<^verbatim>\<open>TypeError\<close>.
\<close>

fun py_in :: "ustring \<Rightarrow> json \<Rightarrow> error + bool" where
  "py_in field (JObj d) = Inr (field \<in> set (keys d))"
| "py_in field (JArr xs) = Inr (JStr field \<in> set xs)"
| "py_in field (JStr s) = Inr (is_substring field s)"
| "py_in field v = Inl PyTypeError"

text \<open>
  The loop over \<^verbatim>\<open>required_top_level\<close>. The message of the error lists
  \<^verbatim>\<open>story.keys()\<close>, which only a \<^verbatim>\<open>dict\<close> has.
\<close>

fun check_top_level :: "json \<Rightarrow> ustring list \<Rightarrow> error + unit" where
  "check_top_level story [] = Inr ()"
| "check_top_level story (field # fields) =
     (case py_in field story of
        Inl e \<Rightarrow> Inl e
      | Inr True \<Rightarrow> check_top_level story fields
      | Inr False \<Rightarrow>
          (case story of
             JObj d \<Rightarrow> Inl (MissingField field (keys d))
           | _ \<Rightarrow> Inl PyAttributeError))"

text \<open>\<^verbatim>\<open>story["slides"]\<close>\<close>

fun py_getitem :: "json \<Rightarrow> ustring \<Rightarrow> error + json" where
  "py_getitem (JObj d) k = (case map_of d k of Some v \<Rightarrow> Inr v | None \<Rightarrow> Inl PyKeyError)"
| "py_getitem v k = Inl PyTypeError"

text \<open>
  \<^verbatim>\<open>slide_type not in required_fields\<close> followed by \<^verbatim>\<open>required_fields[slide_type]\<close>: the
  name and the fields of a known type, \<open>None\<close> for a value that is no key of the table, and
  \<^verbatim>\<open>TypeError\<close> for a value that cannot be hashed.
\<close>

fun lookup_required :: "json \<Rightarrow> error + (ustring \<times> ustring list) option" where
  "lookup_required (JStr t) = Inr (map_option (Pair t) (map_of required_fields t))"
| "lookup_required (JArr xs) = Inl PyTypeError"
| "lookup_required (JObj d) = Inl PyTypeError"
| "lookup_required v = Inr None"

text \<open>The inner loop over the fields a slide's type requires; \<open>pos\<close> is \<^verbatim>\<open>i+1\<close>.\<close>

fun check_fields :: "nat \<Rightarrow> ustring \<Rightarrow> (ustring \<times> json) list \<Rightarrow> ustring list \<Rightarrow> error + unit" where
  "check_fields pos slide_type slide [] = Inr ()"
| "check_fields pos slide_type slide (field # fields) =
     (if field \<notin> set (keys slide)
      then Inl (MissingSlideField pos slide_type field (keys slide))
      else check_fields pos slide_type slide fields)"

text \<open>The body of the loop over the slides, for the slide at index \<open>i\<close>. \<^verbatim>\<open>slide.get\<close> exists
  only on a \<^verbatim>\<open>dict\<close>.\<close>

definition check_slide :: "nat \<Rightarrow> json \<Rightarrow> error + unit" where
  "check_slide i slide =
     (case slide of
        JObj d \<Rightarrow>
          (let slide_type = dict_get d (ustr ''type'') in
           case lookup_required slide_type of
             Inl e \<Rightarrow> Inl e
           | Inr None \<Rightarrow> Inl (UnknownSlideType (i + 1) slide_type)
           | Inr (Some (t, fields)) \<Rightarrow> check_fields (i + 1) t d fields)
      | _ \<Rightarrow> Inl PyAttributeError)"

fun check_slides :: "nat \<Rightarrow> json list \<Rightarrow> error + unit" where
  "check_slides i [] = Inr ()"
| "check_slides i (slide # slides) =
     (case check_slide i slide of
        Inl e \<Rightarrow> Inl e
      | Inr u \<Rightarrow> check_slides (i + 1) slides)"

text \<open>\<^verbatim>\<open>s['type']\<close> in the final message, where every slide is a \<^verbatim>\<open>dict\<close> with that key.\<close>

definition slide_type_of :: "json \<Rightarrow> json" where
  "slide_type_of slide = (case slide of JObj d \<Rightarrow> dict_get d (ustr ''type'') | _ \<Rightarrow> JNull)"

definition validate_schema :: "json \<Rightarrow> event list \<times> (error + unit)" where
  "validate_schema story =
     (case check_top_level story required_top_level of
        Inl e \<Rightarrow> ([], Inl e)
      | Inr u \<Rightarrow>
          (case py_getitem story (ustr ''slides'') of
             Inl e \<Rightarrow> ([], Inl e)
           | Inr slides \<Rightarrow>
               (case slides of
                  JArr xs \<Rightarrow>
                    (let slide_count = length xs;
                         out = (if slide_count \<noteq> 4 then [PrintCountWarning slide_count] else [])
                     in case check_slides 0 xs of
                          Inl e \<Rightarrow> (out, Inl e)
                        | Inr u \<Rightarrow>
                            (out @ [PrintValidated slide_count (map slide_type_of xs)], Inr ()))
                | _ \<Rightarrow> ([], Inl (WrongType (py_type_name slides))))))"

subsection \<open>\<^verbatim>\<open>_write_json\<close>\<close>

text \<open>
  What \<^verbatim>\<open>_write_json\<close> reads from its surroundings: the directory of the module
  (\<^verbatim>\<open>os.path.dirname(__file__)\<close>), the clock already formatted
  (\<^verbatim>\<open>datetime.now().strftime("%Y%m%d_%H%M%S")\<close>), and whether the file system lets the
  directory be created, the file be opened and the text be written.
\<close>

record env =
  module_dir :: ustring
  timestamp :: ustring
  makedirs_ok :: bool
  open_ok :: bool
  write_ok :: bool

text \<open>\<^verbatim>\<open>os.path.join(a, b)\<close> on POSIX.\<close>

definition path_join :: "ustring \<Rightarrow> ustring \<Rightarrow> ustring" where
  "path_join a b =
     (if starts_with [47] b then b
      else if a = [] \<or> last a = 47 then a @ b
      else a @ [47] @ b)"

text \<open>
  A surrogate code point cannot be encoded as UTF-8: writing a string that holds one to
  the file raises \<^verbatim>\<open>UnicodeEncodeError\<close>, which is no \<^verbatim>\<open>IOError\<close>.
\<close>

definition is_surrogate :: "nat \<Rightarrow> bool" where
  "is_surrogate c \<longleftrightarrow> 55296 \<le> c \<and> c \<le> 57343"

fun has_surrogate :: "json \<Rightarrow> bool"
  and has_surrogate_list :: "json list \<Rightarrow> bool"
  and has_surrogate_dict :: "(ustring \<times> json) list \<Rightarrow> bool"
where
  "has_surrogate (JStr s) = list_ex is_surrogate s"
| "has_surrogate (JArr xs) = has_surrogate_list xs"
| "has_surrogate (JObj d) = has_surrogate_dict d"
| "has_surrogate v = False"
| "has_surrogate_list [] = False"
| "has_surrogate_list (x # xs) = (has_surrogate x \<or> has_surrogate_list xs)"
| "has_surrogate_dict [] = False"
| "has_surrogate_dict ((k, v) # d) = (list_ex is_surrogate k \<or> has_surrogate v \<or> has_surrogate_dict d)"

definition write_json :: "env \<Rightarrow> json \<Rightarrow> ustring \<Rightarrow> event list \<times> (error + ustring)" where
  "write_json e story team_key =
     (let output_dir = path_join (module_dir e) (ustr ''output'') in
      if \<not> makedirs_ok e then ([MakeDirs output_dir], Inl PyOSError)
      else
        (let filename = team_key @ ustr ''_story_'' @ timestamp e @ ustr ''.json'';
             output_path = path_join output_dir filename
         in if \<not> open_ok e then ([MakeDirs output_dir, OpenWrite output_path], Inl PyIOError)
            else if has_surrogate story
              then ([MakeDirs output_dir, OpenWrite output_path], Inl PyUnicodeEncodeError)
            else if \<not> write_ok e
              then ([MakeDirs output_dir, OpenWrite output_path], Inl PyIOError)
            else ([MakeDirs output_dir, OpenWrite output_path, DumpJson output_path story],
                  Inr output_path)))"

subsection \<open>\<^verbatim>\<open>parse_and_save\<close>\<close>

text \<open>
  Steps 1 to 3 of \<^verbatim>\<open>parse_and_save\<close>: cleaning, decoding and schema validation. This is
  the part of the function that the specification calls \<^verbatim>\<open>validate\<close>.
\<close>

definition validate :: "ustring \<Rightarrow> event list \<times> (error + json)" where
  "validate raw_response =
     (case clean_response raw_response of
        Inl e \<Rightarrow> ([], Inl e)
      | Inr cleaned \<Rightarrow>
          (case parse_json cleaned of
             Inl e \<Rightarrow> ([], Inl e)
           | Inr story \<Rightarrow>
               (case validate_schema story of
                  (out, Inl e) \<Rightarrow> (out, Inl e)
                | (out, Inr u) \<Rightarrow> (out, Inr story))))"

text \<open>The whole function: step 4 writes the validated story and prints the path.\<close>

definition parse_and_save :: "env \<Rightarrow> ustring \<Rightarrow> ustring \<Rightarrow> event list \<times> (error + json)" where
  "parse_and_save e raw_response team_key =
     (case validate raw_response of
        (out, Inl err) \<Rightarrow> (out, Inl err)
      | (out, Inr story) \<Rightarrow>
          (case write_json e story team_key of
             (out2, Inl err) \<Rightarrow> (out @ out2, Inl err)
           | (out2, Inr output_path) \<Rightarrow> (out @ out2 @ [PrintSaved output_path], Inr story)))"

section \<open>Evaluating the model\<close>

text \<open>The definitions a concrete run of the parser unfolds.\<close>

lemmas eval_simps = ustr_def is_space_def py_strip_def py_slice_def fence_def drop_json_def
  at_eol_def clean_response_def
  json_loads_def skip_ws_def is_json_ws_def is_digit_def hex_val_def
  unescape_def is_high_surrogate_def is_low_surrogate_def join_surrogates_def emit_def
  match_int_def match_frac_def match_exp_def match_number_def dict_of_pairs_def
  parse_constant_def parse_scalar_def
  is_float_literal_def keys_def dict_get_def parse_json_def required_top_level_def
  required_fields_def check_slide_def slide_type_of_def validate_schema_def
  path_join_def is_surrogate_def write_json_def validate_def parse_and_save_def

section \<open>Facts about the string operations\<close>

lemma py_find_None: "py_find c s = None \<longleftrightarrow> c \<notin> set s"
  by (induction s) auto

lemma py_rfind_None: "py_rfind c s = None \<longleftrightarrow> c \<notin> set s"
  by (induction s) (auto split: option.splits)

lemma py_find_Some: "py_find c s = Some i \<Longrightarrow> i < length s \<and> s ! i = c \<and> c \<notin> set (take i s)"
  by (induction s arbitrary: i) (auto split: if_splits)

lemma py_rfind_Some:
  "py_rfind c s = Some i \<Longrightarrow> i < length s \<and> s ! i = c \<and> c \<notin> set (drop (Suc i) s)"
  by (induction s arbitrary: i) (auto split: option.splits if_splits simp: py_rfind_None)

lemma py_strip_id: "s \<noteq> [] \<Longrightarrow> \<not> is_space (hd s) \<Longrightarrow> \<not> is_space (last s) \<Longrightarrow> py_strip s = s"
proof -
  assume ne: "s \<noteq> []" and h: "\<not> is_space (hd s)" and l: "\<not> is_space (last s)"
  from ne h have "dropWhile is_space s = s"
    by (cases s) auto
  moreover from ne l have "dropWhile is_space (rev s) = rev s"
    by (cases "rev s") (auto simp: last_rev [symmetric] simp del: last_rev)
  ultimately show ?thesis
    by (simp add: py_strip_def)
qed

lemma not_space_braces: "\<not> is_space LBRACE" "\<not> is_space RBRACE"
  by (simp_all add: is_space_def)

section \<open>Responses without a JSON object\<close>

text \<open>
  Claim C6. When the text left after trimming and after removing the fences has no \<^verbatim>\<open>{\<close>
  or has no \<^verbatim>\<open>}\<close>, validation fails with \<open>NoJsonFound\<close>, nothing is printed, and the error
  carries the first 200 characters of the raw response.
\<close>

theorem no_brace_NoJsonFound:
  assumes "LBRACE \<notin> set (sub_close_fence (sub_open_fence (py_strip raw)))
         \<or> RBRACE \<notin> set (sub_close_fence (sub_open_fence (py_strip raw)))"
  shows "validate raw = ([], Inl (NoJsonFound (take 200 raw)))"
proof -
  let ?t = "sub_close_fence (sub_open_fence (py_strip raw))"
  from assms have "py_find LBRACE ?t = None \<or> py_rfind RBRACE ?t = None"
    by (simp add: py_find_None py_rfind_None)
  then have "clean_response raw = Inl (NoJsonFound (take 200 raw))"
    by (auto simp: clean_response_def Let_def split: option.splits)
  then show ?thesis
    by (simp add: validate_def)
qed

theorem no_brace_NoJsonFound_witness:
  \<open>RBRACE \<notin> set (sub_close_fence (sub_open_fence (py_strip (ustr ''```json { "team": "X" ```''))))
   \<and> validate (ustr ''```json { "team": "X" ```'')
       = ([], Inl (NoJsonFound (ustr ''```json { "team": "X" ```'')))\<close>
proof -
  have h: \<open>RBRACE \<notin> set (sub_close_fence (sub_open_fence (py_strip (ustr ''```json { "team": "X" ```''))))\<close>
    by (simp add: eval_simps)
  show ?thesis
    using h no_brace_NoJsonFound [of \<open>ustr ''```json { "team": "X" ```''\<close>]
    by (simp add: ustr_def)
qed

section \<open>Facts about cleaning and decoding\<close>

lemma json_loads_empty: "json_loads [] = None"
  by (simp add: json_loads_def skip_ws_def)

lemma json_loads_brace_object: "json_loads (LBRACE # s) = Some v \<Longrightarrow> \<exists>d. v = JObj d"
  by (auto simp: json_loads_def skip_ws_def is_json_ws_def split: option.splits list.splits if_splits)

lemma py_slice_shape:
  assumes "i < k" "k < length t"
  shows "py_slice t i (k + 1) \<noteq> [] \<and> hd (py_slice t i (k + 1)) = t ! i
         \<and> last (py_slice t i (k + 1)) = t ! k"
proof -
  from assms have ne: "drop i (take (k + 1) t) \<noteq> []"
    by simp
  from assms have "hd (drop i (take (k + 1) t)) = t ! i"
    by (simp add: hd_drop_conv_nth)
  moreover from assms ne have "last (drop i (take (k + 1) t)) = t ! k"
    by (simp add: last_conv_nth)
  ultimately show ?thesis
    using ne by (simp add: py_slice_def)
qed

text \<open>What \<open>clean_response\<close> returns is empty or runs from a \<^verbatim>\<open>{\<close> to a \<^verbatim>\<open>}\<close>.\<close>

lemma clean_response_cases:
  assumes "clean_response raw = Inr c"
  shows "c = [] \<or> (c \<noteq> [] \<and> hd c = LBRACE \<and> last c = RBRACE)"
proof -
  let ?t = "sub_close_fence (sub_open_fence (py_strip raw))"
  from assms obtain i k where f: "py_find LBRACE ?t = Some i" and r: "py_rfind RBRACE ?t = Some k"
    and c: "c = py_strip (py_slice ?t i (k + 1))"
    by (auto simp: clean_response_def Let_def split: option.splits)
  from py_find_Some [OF f] have i: "i < length ?t" "?t ! i = LBRACE"
    by simp_all
  from py_rfind_Some [OF r] have k: "k < length ?t" "?t ! k = RBRACE"
    by simp_all
  show ?thesis
  proof (cases "i < k")
    case True
    from py_slice_shape [OF True k(1)] i k
    have sh: "py_slice ?t i (k + 1) \<noteq> []" "hd (py_slice ?t i (k + 1)) = LBRACE"
      "last (py_slice ?t i (k + 1)) = RBRACE"
      by simp_all
    then have "py_strip (py_slice ?t i (k + 1)) = py_slice ?t i (k + 1)"
      by (intro py_strip_id) (simp_all add: not_space_braces)
    with sh c show ?thesis by simp
  next
    case False
    with i k have "k < i"
      by (cases "i = k") auto
    then have "py_slice ?t i (k + 1) = []"
      by (simp add: py_slice_def)
    with c show ?thesis
      by (simp add: py_strip_def)
  qed
qed

lemma decoded_is_object:
  assumes "clean_response raw = Inr c" "parse_json c = Inr v"
  shows "\<exists>d. v = JObj d"
proof -
  from assms(2) have jl: "json_loads c = Some v"
    by (simp add: parse_json_def split: option.splits)
  with json_loads_empty have "c \<noteq> []"
    by auto
  with clean_response_cases [OF assms(1)] obtain s where "c = LBRACE # s"
    by (cases c) auto
  with jl show ?thesis
    by (auto dest: json_loads_brace_object)
qed

text \<open>
  Claim C10. The cleaned text has both braces, the first \<^verbatim>\<open>{\<close> at index \<open>i\<close> and the last
  \<^verbatim>\<open>}\<close> at index \<open>k\<close>. When the last \<^verbatim>\<open>}\<close> comes before the first \<^verbatim>\<open>{\<close>, extraction
  succeeds with the empty slice and validation fails at the decoding step with
  \<open>MalformedJson\<close>, not with \<open>NoJsonFound\<close>. When the first \<^verbatim>\<open>{\<close> comes before the last \<^verbatim>\<open>}\<close>,
  the extracted text starts with \<^verbatim>\<open>{\<close> and ends with \<^verbatim>\<open>}\<close>, and whatever decodes from it is an
  object.
\<close>

theorem reversed_braces_malformed:
  assumes "py_find LBRACE (sub_close_fence (sub_open_fence (py_strip raw))) = Some i"
    and "py_rfind RBRACE (sub_close_fence (sub_open_fence (py_strip raw))) = Some k"
  shows "(k < i \<longrightarrow> clean_response raw = Inr [] \<and> validate raw = ([], Inl (MalformedJson [])))
       \<and> (i < k \<longrightarrow> (\<exists>c. clean_response raw = Inr c \<and> c \<noteq> [] \<and> hd c = LBRACE \<and> last c = RBRACE
                      \<and> (\<forall>v. parse_json c = Inr v \<longrightarrow> (\<exists>d. v = JObj d))))"
proof (intro conjI impI)
  let ?t = "sub_close_fence (sub_open_fence (py_strip raw))"
  have c: "clean_response raw = Inr (py_strip (py_slice ?t i (k + 1)))"
    using assms by (simp add: clean_response_def Let_def)
  {
    assume "k < i"
    then have "py_slice ?t i (k + 1) = []"
      by (simp add: py_slice_def)
    with c show e: "clean_response raw = Inr []"
      by (simp add: py_strip_def)
    then show "validate raw = ([], Inl (MalformedJson []))"
      by (simp add: validate_def parse_json_def json_loads_empty)
  }
  {
    assume ik: "i < k"
    from py_find_Some [OF assms(1)] have i: "?t ! i = LBRACE"
      by simp
    from py_rfind_Some [OF assms(2)] have k: "k < length ?t" "?t ! k = RBRACE"
      by simp_all
    from py_slice_shape [OF ik k(1)] i k
    have sh: "py_slice ?t i (k + 1) \<noteq> []" "hd (py_slice ?t i (k + 1)) = LBRACE"
      "last (py_slice ?t i (k + 1)) = RBRACE"
      by simp_all
    then have "py_strip (py_slice ?t i (k + 1)) = py_slice ?t i (k + 1)"
      by (intro py_strip_id) (simp_all add: not_space_braces)
    with c have c': "clean_response raw = Inr (py_slice ?t i (k + 1))"
      by simp
    with sh decoded_is_object [OF c']
    show "\<exists>c. clean_response raw = Inr c \<and> c \<noteq> [] \<and> hd c = LBRACE \<and> last c = RBRACE
            \<and> (\<forall>v. parse_json c = Inr v \<longrightarrow> (\<exists>d. v = JObj d))"
      by blast
  }
qed

theorem reversed_braces_malformed_witness:
  \<open>validate (ustr ''} some text {'') = ([], Inl (MalformedJson []))
   \<and> (\<exists>c. clean_response (ustr ''x {"a": 1} y'') = Inr c \<and> c \<noteq> [] \<and> hd c = LBRACE
          \<and> last c = RBRACE \<and> (\<forall>v. parse_json c = Inr v \<longrightarrow> (\<exists>d. v = JObj d)))\<close>
proof -
  have a: \<open>py_find LBRACE (sub_close_fence (sub_open_fence (py_strip (ustr ''} some text {'')))) = Some 12\<close>
    by (simp add: eval_simps)
  have b: \<open>py_rfind RBRACE (sub_close_fence (sub_open_fence (py_strip (ustr ''} some text {'')))) = Some 0\<close>
    by (simp add: eval_simps)
  have c: \<open>py_find LBRACE (sub_close_fence (sub_open_fence (py_strip (ustr ''x {"a": 1} y'')))) = Some 2\<close>
    by (simp add: eval_simps)
  have d: \<open>py_rfind RBRACE (sub_close_fence (sub_open_fence (py_strip (ustr ''x {"a": 1} y'')))) = Some 9\<close>
    by (simp add: eval_simps)
  show ?thesis
    using reversed_braces_malformed [OF a b] reversed_braces_malformed [OF c d]
    by simp
qed

section \<open>Facts about schema validation\<close>

lemma validate_decoded:
  assumes "clean_response raw = Inr cleaned" "parse_json cleaned = Inr story"
  shows "validate raw =
           (case validate_schema story of
              (out, Inl e) \<Rightarrow> (out, Inl e)
            | (out, Inr u) \<Rightarrow> (out, Inr story))"
  using assms by (simp add: validate_def)

lemma check_top_level_missing:
  "set pre \<subseteq> set (keys d) \<Longrightarrow> field \<notin> set (keys d) \<Longrightarrow>
     check_top_level (JObj d) (pre @ field # post) = Inl (MissingField field (keys d))"
  by (induction pre) auto

lemma check_top_level_ok: "check_top_level (JObj d) fs = Inr () \<longleftrightarrow> set fs \<subseteq> set (keys d)"
  by (induction fs) (auto split: bool.splits)

lemma keys_map_of: "k \<in> set (keys d) \<longleftrightarrow> map_of d k \<noteq> None"
  by (simp add: keys_def map_of_eq_None_iff)

lemma check_fields_missing:
  "set pre \<subseteq> set (keys d) \<Longrightarrow> field \<notin> set (keys d) \<Longrightarrow>
     check_fields pos t d (pre @ field # post) = Inl (MissingSlideField pos t field (keys d))"
  by (induction pre) auto

lemma check_fields_ok: "check_fields pos t d fs = Inr () \<longleftrightarrow> set fs \<subseteq> set (keys d)"
  by (induction fs) (auto split: bool.splits)

section \<open>Missing top-level keys\<close>

text \<open>
  Claim C5. When the decoded object lacks one of the five required top-level keys,
  validation fails with \<open>MissingField\<close> for the first key of the list \<^verbatim>\<open>team\<close>, \<^verbatim>\<open>match\<close>,
  \<^verbatim>\<open>date\<close>, \<^verbatim>\<open>result\<close>, \<^verbatim>\<open>slides\<close> that is absent, and the error lists the keys that are
  present. Nothing is printed.
\<close>

theorem missing_top_level_field:
  assumes "clean_response raw = Inr cleaned"
    and "parse_json cleaned = Inr (JObj d)"
    and "required_top_level = pre @ field # post"
    and "set pre \<subseteq> set (keys d)"
    and "field \<notin> set (keys d)"
  shows "validate raw = ([], Inl (MissingField field (keys d)))"
proof -
  have "check_top_level (JObj d) required_top_level = Inl (MissingField field (keys d))"
    unfolding assms(3) using assms(4,5) by (rule check_top_level_missing)
  then have "validate_schema (JObj d) = ([], Inl (MissingField field (keys d)))"
    by (simp add: validate_schema_def)
  with validate_decoded [OF assms(1,2)] show ?thesis
    by simp
qed

theorem missing_top_level_field_witness:
  \<open>validate (ustr ''{"team":"X"}'') = ([], Inl (MissingField (ustr ''match'') [ustr ''team'']))\<close>
proof -
  have a: \<open>clean_response (ustr ''{"team":"X"}'') = Inr (ustr ''{"team":"X"}'')\<close>
    by (simp add: eval_simps)
  have b: \<open>parse_json (ustr ''{"team":"X"}'') = Inr (JObj [(ustr ''team'', JStr (ustr ''X''))])\<close>
    by (simp add: eval_simps)
  have c: "required_top_level
             = [ustr ''team''] @ ustr ''match'' # [ustr ''date'', ustr ''result'', ustr ''slides'']"
    by (simp add: required_top_level_def)
  have d: "set [ustr ''team''] \<subseteq> set (keys [(ustr ''team'', JStr (ustr ''X''))])"
    by (simp add: keys_def)
  have e: "ustr ''match'' \<notin> set (keys [(ustr ''team'', JStr (ustr ''X''))])"
    by (simp add: keys_def ustr_def)
  show ?thesis
    using missing_top_level_field [OF a b c d e] by (simp add: keys_def)
qed

section \<open>Slides of the wrong shape\<close>

text \<open>
  Claim C7. When the decoded object has all five required keys and the value of
  \<^verbatim>\<open>slides\<close> is not a list, validation fails with \<open>WrongType\<close>, which names the type found
  (the message reads "'slides' should be a list, got ..."). Nothing is printed.
\<close>

theorem slides_not_a_list:
  assumes "clean_response raw = Inr cleaned"
    and "parse_json cleaned = Inr (JObj d)"
    and "set required_top_level \<subseteq> set (keys d)"
    and "map_of d (ustr ''slides'') = Some v"
    and "\<forall>xs. v \<noteq> JArr xs"
  shows "validate raw = ([], Inl (WrongType (py_type_name v)))"
proof -
  have "check_top_level (JObj d) required_top_level = Inr ()"
    using assms(3) by (simp add: check_top_level_ok)
  with assms(4,5) have "validate_schema (JObj d) = ([], Inl (WrongType (py_type_name v)))"
    by (cases v) (simp_all add: validate_schema_def)
  with validate_decoded [OF assms(1,2)] show ?thesis
    by simp
qed

definition raw_slides_mapping :: ustring where
  \<open>raw_slides_mapping =
     ustr ''{"team":"X","match":"X vs Y","date":"2025-01-01","result":"WIN","slides":{"type":"headline"}}''\<close>

theorem slides_not_a_list_witness:
  "validate raw_slides_mapping = ([], Inl (WrongType (ustr ''dict'')))"
proof -
  let ?d = "[(ustr ''team'', JStr (ustr ''X'')), (ustr ''match'', JStr (ustr ''X vs Y'')),
             (ustr ''date'', JStr (ustr ''2025-01-01'')), (ustr ''result'', JStr (ustr ''WIN'')),
             (ustr ''slides'', JObj [(ustr ''type'', JStr (ustr ''headline''))])]"
  have a: "clean_response raw_slides_mapping = Inr raw_slides_mapping"
    by (simp add: raw_slides_mapping_def eval_simps)
  have b: "parse_json raw_slides_mapping = Inr (JObj ?d)"
    by (simp add: raw_slides_mapping_def eval_simps)
  have c: "set required_top_level \<subseteq> set (keys ?d)"
    by (simp add: required_top_level_def keys_def)
  have d: "map_of ?d (ustr ''slides'') = Some (JObj [(ustr ''type'', JStr (ustr ''headline''))])"
    by (simp add: ustr_def)
  have e: "\<forall>xs. JObj [(ustr ''type'', JStr (ustr ''headline''))] \<noteq> JArr xs"
    by simp
  show ?thesis
    using slides_not_a_list [OF a b c d e] by simp
qed

section \<open>Sample responses\<close>

text \<open>Three slides and a story around them, as text and as the values they decode to.\<close>

definition sample_headline_text :: ustring where
  \<open>sample_headline_text =
     ustr ''{"type":"headline","text":"LAKERS WIN","subtext":"A statement victory."}''\<close>

definition sample_stat_text :: ustring where
  \<open>sample_stat_text =
     ustr ''{"type":"stat","stat_label":"POINTS","stat_value":"120","narrative":"Season high."}''\<close>

definition sample_cta_text :: ustring where
  \<open>sample_cta_text = ustr ''{"type":"cta","text":"Follow us","subtext":"More soon."}''\<close>

definition sample_story_text :: "ustring \<Rightarrow> ustring" where
  \<open>sample_story_text slides =
     ustr ''{"team":"Lakers","match":"Lakers vs Celtics","date":"2025-01-01","result":"WIN","slides":[''
       @ slides @ ustr '']}''\<close>

definition sample_headline :: json where
  "sample_headline =
     JObj [(ustr ''type'', JStr (ustr ''headline'')), (ustr ''text'', JStr (ustr ''LAKERS WIN'')),
           (ustr ''subtext'', JStr (ustr ''A statement victory.''))]"

definition sample_stat :: json where
  "sample_stat =
     JObj [(ustr ''type'', JStr (ustr ''stat'')), (ustr ''stat_label'', JStr (ustr ''POINTS'')),
           (ustr ''stat_value'', JStr (ustr ''120'')), (ustr ''narrative'', JStr (ustr ''Season high.''))]"

definition sample_cta :: json where
  "sample_cta =
     JObj [(ustr ''type'', JStr (ustr ''cta'')), (ustr ''text'', JStr (ustr ''Follow us'')),
           (ustr ''subtext'', JStr (ustr ''More soon.''))]"

definition sample_story :: "json list \<Rightarrow> (ustring \<times> json) list" where
  "sample_story slides =
     [(ustr ''team'', JStr (ustr ''Lakers'')), (ustr ''match'', JStr (ustr ''Lakers vs Celtics'')),
      (ustr ''date'', JStr (ustr ''2025-01-01'')), (ustr ''result'', JStr (ustr ''WIN'')),
      (ustr ''slides'', JArr slides)]"

definition three_slides_text :: ustring where
  "three_slides_text =
     sample_story_text (sample_headline_text @ [44] @ sample_stat_text @ [44] @ sample_cta_text)"

lemmas sample_defs = sample_headline_text_def sample_stat_text_def sample_cta_text_def
  sample_story_text_def sample_headline_def sample_stat_def sample_cta_def sample_story_def
  three_slides_text_def

lemma three_slides_clean: "clean_response three_slides_text = Inr three_slides_text"
  by (simp add: sample_defs eval_simps)

lemma three_slides_decode:
  "parse_json three_slides_text = Inr (JObj (sample_story [sample_headline, sample_stat, sample_cta]))"
  by (simp add: sample_defs eval_simps)

lemma sample_story_keys: "set required_top_level \<subseteq> set (keys (sample_story slides))"
  by (simp add: required_top_level_def keys_def sample_story_def)

lemma sample_story_slides: "map_of (sample_story slides) (ustr ''slides'') = Some (JArr slides)"
  by (simp add: sample_story_def ustr_def)

section \<open>Well-formed slides\<close>

text \<open>
  The specification's table of slide shapes: the fields each type requires besides the
  \<^verbatim>\<open>type\<close> tag itself.
\<close>

definition spec_slide_fields :: "(ustring \<times> ustring list) list" where
  "spec_slide_fields =
     [(ustr ''headline'', [ustr ''text'', ustr ''subtext'']),
      (ustr ''stat'', [ustr ''stat_label'', ustr ''stat_value'', ustr ''narrative'']),
      (ustr ''cta'', [ustr ''text'', ustr ''subtext''])]"

text \<open>
  A valid slide in the specification's words: an object whose \<^verbatim>\<open>type\<close> is one of the three
  known tags and which carries every field its type requires.
\<close>

definition valid_slide :: "json \<Rightarrow> bool" where
  "valid_slide slide =
     (case slide of
        JObj d \<Rightarrow>
          (case map_of d (ustr ''type'') of
             Some (JStr t) \<Rightarrow>
               (case map_of spec_slide_fields t of
                  Some fs \<Rightarrow> set fs \<subseteq> set (keys d)
                | None \<Rightarrow> False)
           | _ \<Rightarrow> False)
      | _ \<Rightarrow> False)"

text \<open>The loop body accepts exactly the valid slides.\<close>

lemma required_fields_spec:
  "map_of required_fields t = map_option (\<lambda>fs. ustr ''type'' # fs) (map_of spec_slide_fields t)"
  by (simp add: required_fields_def spec_slide_fields_def)

lemma check_slide_ok: "check_slide i slide = Inr () \<longleftrightarrow> valid_slide slide"
proof (cases slide)
  case (JObj d)
  show ?thesis
  proof (cases "map_of d (ustr ''type'')")
    case None
    with JObj show ?thesis
      by (simp add: check_slide_def valid_slide_def dict_get_def)
  next
    case (Some v)
    then have k: "ustr ''type'' \<in> set (keys d)"
      by (simp add: keys_map_of)
    from JObj Some k show ?thesis
      by (cases v)
        (auto simp: check_slide_def valid_slide_def dict_get_def required_fields_spec
           check_fields_ok split: option.splits)
  qed
qed (simp_all add: check_slide_def valid_slide_def)

lemma check_slides_valid_prefix:
  "\<forall>s \<in> set pre. valid_slide s \<Longrightarrow> check_slides i (pre @ rest) = check_slides (i + length pre) rest"
proof (induction pre arbitrary: i)
  case Nil
  then show ?case by simp
next
  case (Cons s pre)
  then have "check_slide i s = Inr ()"
    by (simp add: check_slide_ok)
  with Cons show ?case
    by simp
qed

lemma check_slides_ok: "check_slides i xs = Inr () \<longleftrightarrow> (\<forall>s \<in> set xs. valid_slide s)"
proof (induction xs arbitrary: i)
  case Nil
  then show ?case by simp
next
  case (Cons s xs)
  show ?case
  proof (cases "check_slide i s")
    case (Inl e)
    then have "\<not> valid_slide s"
      using check_slide_ok [of i s] by simp
    with Inl show ?thesis by simp
  next
    case (Inr u)
    then have "valid_slide s"
      using check_slide_ok [of i s] by simp
    with Inr Cons.IH [of "i + 1"] show ?thesis by simp
  qed
qed

text \<open>What \<open>validate_schema\<close> does on an object whose five keys are present and whose slides
  are a list.\<close>

lemma validate_schema_slides:
  assumes "set required_top_level \<subseteq> set (keys d)"
    and "map_of d (ustr ''slides'') = Some (JArr xs)"
  shows "validate_schema (JObj d) =
           (case check_slides 0 xs of
              Inl e \<Rightarrow> (if length xs \<noteq> 4 then [PrintCountWarning (length xs)] else [], Inl e)
            | Inr u \<Rightarrow>
                ((if length xs \<noteq> 4 then [PrintCountWarning (length xs)] else [])
                   @ [PrintValidated (length xs) (map slide_type_of xs)], Inr ()))"
proof -
  have "check_top_level (JObj d) required_top_level = Inr ()"
    using assms(1) by (simp add: check_top_level_ok)
  with assms(2) show ?thesis
    by (simp add: validate_schema_def Let_def)
qed

section \<open>The slide count\<close>

text \<open>
  Claim C8. The slide count is advisory. When the decoded object has the five required
  keys and its slides are a list of valid slides whose length is not 4, validation prints
  the count warning and the confirmation, and succeeds with the decoded object: the
  slides of the returned story are the slides of the input, all of them.
\<close>

theorem slide_count_advisory:
  assumes "clean_response raw = Inr cleaned"
    and "parse_json cleaned = Inr (JObj d)"
    and "set required_top_level \<subseteq> set (keys d)"
    and "map_of d (ustr ''slides'') = Some (JArr xs)"
    and "\<forall>s \<in> set xs. valid_slide s"
    and "length xs \<noteq> 4"
  shows "validate raw =
           ([PrintCountWarning (length xs), PrintValidated (length xs) (map slide_type_of xs)],
            Inr (JObj d))
         \<and> py_getitem (JObj d) (ustr ''slides'') = Inr (JArr xs)"
proof -
  have "check_slides 0 xs = Inr ()"
    using assms(5) by (simp add: check_slides_ok)
  with validate_schema_slides [OF assms(3,4)] assms(6)
  have "validate_schema (JObj d) =
          ([PrintCountWarning (length xs), PrintValidated (length xs) (map slide_type_of xs)], Inr ())"
    by simp
  with validate_decoded [OF assms(1,2)] assms(4) show ?thesis
    by simp
qed

lemma sample_slides_valid:
  "valid_slide sample_headline" "valid_slide sample_stat" "valid_slide sample_cta"
  by (simp_all add: valid_slide_def spec_slide_fields_def keys_def sample_defs ustr_def)

theorem slide_count_advisory_witness:
  "validate three_slides_text =
     ([PrintCountWarning 3,
       PrintValidated 3 [JStr (ustr ''headline''), JStr (ustr ''stat''), JStr (ustr ''cta'')]],
      Inr (JObj (sample_story [sample_headline, sample_stat, sample_cta])))
   \<and> py_getitem (JObj (sample_story [sample_headline, sample_stat, sample_cta])) (ustr ''slides'')
       = Inr (JArr [sample_headline, sample_stat, sample_cta])"
proof -
  have v: "\<forall>s \<in> set [sample_headline, sample_stat, sample_cta]. valid_slide s"
    by (simp add: sample_slides_valid)
  have n: "length [sample_headline, sample_stat, sample_cta] \<noteq> 4"
    by simp
  have t: "map slide_type_of [sample_headline, sample_stat, sample_cta]
             = [JStr (ustr ''headline''), JStr (ustr ''stat''), JStr (ustr ''cta'')]"
    by (simp add: slide_type_of_def dict_get_def sample_defs ustr_def)
  show ?thesis
    using slide_count_advisory [OF three_slides_clean three_slides_decode sample_story_keys
        sample_story_slides v n] t
    by simp
qed

section \<open>What a successful validation guarantees\<close>

text \<open>
  Claim C3 says that a returned story has non-empty strings for \<^verbatim>\<open>team\<close>, \<^verbatim>\<open>match\<close>,
  \<^verbatim>\<open>date\<close> and \<^verbatim>\<open>result\<close>, with \<^verbatim>\<open>result\<close> one of WIN, LOSS, DRAW. The code checks that
  the keys are present and never looks at their values: the response below has an empty
  team, a number for the match, \<^verbatim>\<open>null\<close> for the date and MAYBE for the result, and it is
  returned as a story.
\<close>

definition raw_loose_values :: ustring where
  \<open>raw_loose_values = ustr ''{"team":"","match":5,"date":null,"result":"MAYBE","slides":[]}''\<close>

theorem loose_values_accepted:
  "validate raw_loose_values =
     ([PrintCountWarning 0, PrintValidated 0 []],
      Inr (JObj [(ustr ''team'', JStr []), (ustr ''match'', JNum (ustr ''5'')),
                 (ustr ''date'', JNull), (ustr ''result'', JStr (ustr ''MAYBE'')),
                 (ustr ''slides'', JArr [])]))"
  by (simp add: raw_loose_values_def eval_simps)

text \<open>
  Claim C3 as amended. Every story that validation returns is an object in which the
  five keys \<^verbatim>\<open>team\<close>, \<^verbatim>\<open>match\<close>, \<^verbatim>\<open>date\<close>, \<^verbatim>\<open>result\<close> and \<^verbatim>\<open>slides\<close> are present, whose
  \<^verbatim>\<open>slides\<close> are a list, each slide of a known type with the fields of its type. The values of
  the other four keys are not constrained.
\<close>

theorem validated_story_shape:
  assumes "validate raw = (out, Inr story)"
  shows "\<exists>d xs. story = JObj d \<and> set required_top_level \<subseteq> set (keys d)
           \<and> map_of d (ustr ''slides'') = Some (JArr xs) \<and> (\<forall>s \<in> set xs. valid_slide s)"
proof -
  from assms obtain cleaned where c: "clean_response raw = Inr cleaned"
    by (auto simp: validate_def split: sum.splits)
  with assms have p: "parse_json cleaned = Inr story"
    by (auto simp: validate_def split: sum.splits prod.splits)
  from decoded_is_object [OF c p] obtain d where d: "story = JObj d"
    by blast
  from assms c p have vs: "snd (validate_schema (JObj d)) = Inr ()"
    unfolding d by (auto simp: validate_def split: sum.splits prod.splits)
  then have top: "check_top_level (JObj d) required_top_level = Inr ()"
    by (auto simp: validate_schema_def split: sum.splits)
  then have ks: "set required_top_level \<subseteq> set (keys d)"
    by (simp add: check_top_level_ok)
  then have "ustr ''slides'' \<in> set (keys d)"
    by (auto simp: required_top_level_def)
  then obtain v where v: "map_of d (ustr ''slides'') = Some v"
    by (auto simp: keys_map_of)
  with vs top obtain xs where xs: "v = JArr xs"
    by (cases v) (auto simp: validate_schema_def)
  with vs validate_schema_slides [OF ks] v have "check_slides 0 xs = Inr ()"
    by (auto split: sum.splits)
  then have "\<forall>s \<in> set xs. valid_slide s"
    by (simp add: check_slides_ok)
  with d ks v xs show ?thesis
    by blast
qed

lemma three_slides_validate:
  "validate three_slides_text =
     ([PrintCountWarning 3,
       PrintValidated 3 (map slide_type_of [sample_headline, sample_stat, sample_cta])],
      Inr (JObj (sample_story [sample_headline, sample_stat, sample_cta])))"
proof -
  have "check_slides 0 [sample_headline, sample_stat, sample_cta] = Inr ()"
    unfolding check_slides_ok by (simp add: sample_slides_valid)
  with validate_schema_slides [OF sample_story_keys sample_story_slides,
      of "[sample_headline, sample_stat, sample_cta]"]
  have "validate_schema (JObj (sample_story [sample_headline, sample_stat, sample_cta])) =
     ([PrintCountWarning 3,
       PrintValidated 3 (map slide_type_of [sample_headline, sample_stat, sample_cta])], Inr ())"
    by simp
  with validate_decoded [OF three_slides_clean three_slides_decode] show ?thesis
    by simp
qed

theorem validated_story_shape_witness:
  "\<exists>d xs. JObj (sample_story [sample_headline, sample_stat, sample_cta]) = JObj d
      \<and> set required_top_level \<subseteq> set (keys d)
      \<and> map_of d (ustr ''slides'') = Some (JArr xs) \<and> (\<forall>s \<in> set xs. valid_slide s)"
  using validated_story_shape [OF three_slides_validate] .

section \<open>The order of the slide checks\<close>

text \<open>A stat slide without its narrative, and a slide of a type that does not exist.\<close>

definition stat_no_narrative_text :: ustring where
  \<open>stat_no_narrative_text = ustr ''{"type":"stat","stat_label":"POINTS","stat_value":"120"}''\<close>

definition outro_text :: ustring where
  \<open>outro_text = ustr ''{"type":"outro"}''\<close>

definition stat_no_narrative :: "(ustring \<times> json) list" where
  "stat_no_narrative =
     [(ustr ''type'', JStr (ustr ''stat'')), (ustr ''stat_label'', JStr (ustr ''POINTS'')),
      (ustr ''stat_value'', JStr (ustr ''120''))]"

definition outro :: "(ustring \<times> json) list" where
  "outro = [(ustr ''type'', JStr (ustr ''outro''))]"

definition missing_then_unknown_text :: ustring where
  "missing_then_unknown_text = sample_story_text (stat_no_narrative_text @ [44] @ outro_text)"

definition valid_then_unknown_text :: ustring where
  "valid_then_unknown_text = sample_story_text (sample_headline_text @ [44] @ outro_text)"

lemmas order_defs = stat_no_narrative_text_def outro_text_def stat_no_narrative_def outro_def
  missing_then_unknown_text_def valid_then_unknown_text_def

text \<open>
  Claim C2 says that the type of every slide is checked before the fields of any slide,
  so that a first slide of a known type with a field missing and a second slide of an
  unknown type fail with \<open>UnknownSlideType\<close> for slide 2. The code has one loop that
  checks the type and then the fields of each slide in turn: that input fails with
  \<open>MissingSlideField\<close> for slide 1.
\<close>

theorem missing_field_reported_before_unknown_type:
  "validate missing_then_unknown_text =
     ([PrintCountWarning 2],
      Inl (MissingSlideField 1 (ustr ''stat'') (ustr ''narrative'')
             [ustr ''type'', ustr ''stat_label'', ustr ''stat_value'']))
   \<and> snd (validate missing_then_unknown_text) \<noteq> Inl (UnknownSlideType 2 (JStr (ustr ''outro'')))"
  by (simp add: order_defs sample_defs eval_simps)

text \<open>A type value that is no key of the table of slide types.\<close>

lemma lookup_required_unknown:
  assumes "\<forall>xs. tv \<noteq> JArr xs" "\<forall>d. tv \<noteq> JObj d"
    and "tv \<notin> {JStr (ustr ''headline''), JStr (ustr ''stat''), JStr (ustr ''cta'')}"
  shows "lookup_required tv = Inr None"
  using assms by (cases tv) (auto simp: required_fields_def)

text \<open>
  Claim C2 as amended. Validation checks the top-level keys, then the shape of
  \<^verbatim>\<open>slides\<close>, then warns about the count, and then goes through the slides once, in order,
  checking for each slide first its type and then its fields. So the error names the
  first slide that fails either check, whatever the slides after it are: when the slides
  before it are valid, a slide whose type value is absent, \<^verbatim>\<open>null\<close>, a boolean, a number or
  a string other than the three tags fails with \<open>UnknownSlideType\<close>, and a slide of a known
  type fails with \<open>MissingSlideField\<close> for the first field of its type that is absent; both
  name the 1-based position.
\<close>

theorem slide_checks_interleaved:
  assumes "clean_response raw = Inr cleaned"
    and "parse_json cleaned = Inr (JObj d)"
    and "set required_top_level \<subseteq> set (keys d)"
    and "map_of d (ustr ''slides'') = Some (JArr (pre @ JObj sd # post))"
    and "\<forall>s \<in> set pre. valid_slide s"
  shows "((\<forall>xs. dict_get sd (ustr ''type'') \<noteq> JArr xs) \<and> (\<forall>d'. dict_get sd (ustr ''type'') \<noteq> JObj d')
            \<and> dict_get sd (ustr ''type'')
                 \<notin> {JStr (ustr ''headline''), JStr (ustr ''stat''), JStr (ustr ''cta'')}
          \<longrightarrow> snd (validate raw)
                = Inl (UnknownSlideType (length pre + 1) (dict_get sd (ustr ''type''))))
       \<and> (\<forall>t fpre f fpost.
             dict_get sd (ustr ''type'') = JStr t
             \<and> map_of required_fields t = Some (fpre @ f # fpost)
             \<and> set fpre \<subseteq> set (keys sd) \<and> f \<notin> set (keys sd)
          \<longrightarrow> snd (validate raw) = Inl (MissingSlideField (length pre + 1) t f (keys sd)))"
proof -
  let ?n = "length (pre @ JObj sd # post)"
  have loop: "check_slides 0 (pre @ JObj sd # post) =
                (case check_slide (length pre) (JObj sd) of
                   Inl e \<Rightarrow> Inl e
                 | Inr u \<Rightarrow> check_slides (length pre + 1) post)"
    using check_slides_valid_prefix [OF assms(5), of 0 "JObj sd # post"] by simp
  have res: "snd (validate raw) = Inl e" if "check_slide (length pre) (JObj sd) = Inl e" for e
  proof -
    from that loop have "check_slides 0 (pre @ JObj sd # post) = Inl e"
      by simp
    with validate_schema_slides [OF assms(3,4)]
    have "snd (validate_schema (JObj d)) = Inl e"
      by simp
    with validate_decoded [OF assms(1,2)] show ?thesis
      by (cases "validate_schema (JObj d)") auto
  qed
  show ?thesis
  proof (intro conjI impI allI)
    assume "(\<forall>xs. dict_get sd (ustr ''type'') \<noteq> JArr xs) \<and> (\<forall>d'. dict_get sd (ustr ''type'') \<noteq> JObj d')
            \<and> dict_get sd (ustr ''type'')
                 \<notin> {JStr (ustr ''headline''), JStr (ustr ''stat''), JStr (ustr ''cta'')}"
    then have "lookup_required (dict_get sd (ustr ''type'')) = Inr None"
      by (intro lookup_required_unknown) simp_all
    then have "check_slide (length pre) (JObj sd)
                 = Inl (UnknownSlideType (length pre + 1) (dict_get sd (ustr ''type'')))"
      by (simp add: check_slide_def)
    then show "snd (validate raw)
                 = Inl (UnknownSlideType (length pre + 1) (dict_get sd (ustr ''type'')))"
      by (rule res)
  next
    fix t fpre f fpost
    assume h: "dict_get sd (ustr ''type'') = JStr t
             \<and> map_of required_fields t = Some (fpre @ f # fpost)
             \<and> set fpre \<subseteq> set (keys sd) \<and> f \<notin> set (keys sd)"
    then have "check_fields (length pre + 1) t sd (fpre @ f # fpost)
                 = Inl (MissingSlideField (length pre + 1) t f (keys sd))"
      by (intro check_fields_missing) simp_all
    with h have "check_slide (length pre) (JObj sd)
                 = Inl (MissingSlideField (length pre + 1) t f (keys sd))"
      by (simp add: check_slide_def)
    then show "snd (validate raw) = Inl (MissingSlideField (length pre + 1) t f (keys sd))"
      by (rule res)
  qed
qed

theorem slide_checks_interleaved_witness:
  "snd (validate valid_then_unknown_text) = Inl (UnknownSlideType 2 (JStr (ustr ''outro'')))
   \<and> snd (validate missing_then_unknown_text)
       = Inl (MissingSlideField 1 (ustr ''stat'') (ustr ''narrative'')
                [ustr ''type'', ustr ''stat_label'', ustr ''stat_value''])"
proof -
  have c1: "clean_response valid_then_unknown_text = Inr valid_then_unknown_text"
    by (simp add: order_defs sample_defs eval_simps)
  have p1: "parse_json valid_then_unknown_text
              = Inr (JObj (sample_story ([sample_headline] @ JObj outro # [])))"
    by (simp add: order_defs sample_defs eval_simps)
  have v1: "\<forall>s \<in> set [sample_headline]. valid_slide s"
    by (simp add: sample_slides_valid)
  have c2: "clean_response missing_then_unknown_text = Inr missing_then_unknown_text"
    by (simp add: order_defs sample_defs eval_simps)
  have p2: "parse_json missing_then_unknown_text
              = Inr (JObj (sample_story ([] @ JObj stat_no_narrative # [JObj outro])))"
    by (simp add: order_defs sample_defs eval_simps)
  have v2: "\<forall>s \<in> set []. valid_slide s"
    by simp
  have t1: "dict_get outro (ustr ''type'') = JStr (ustr ''outro'')"
    by (simp add: dict_get_def outro_def)
  have t2: "dict_get stat_no_narrative (ustr ''type'') = JStr (ustr ''stat'')"
    by (simp add: dict_get_def stat_no_narrative_def)
  have f2: "map_of required_fields (ustr ''stat'')
              = Some ([ustr ''type'', ustr ''stat_label'', ustr ''stat_value'']
                        @ ustr ''narrative'' # [])"
    by (simp add: required_fields_def ustr_def)
  have k2: "keys stat_no_narrative = [ustr ''type'', ustr ''stat_label'', ustr ''stat_value'']"
    by (simp add: keys_def stat_no_narrative_def)
  have n2: "ustr ''narrative'' \<notin> set (keys stat_no_narrative)"
    unfolding k2 by (simp add: ustr_def)
  note th1 = slide_checks_interleaved [OF c1 p1 sample_story_keys sample_story_slides v1,
      THEN conjunct1, rule_format]
  have u1: "(\<forall>xs. dict_get outro (ustr ''type'') \<noteq> JArr xs)
        \<and> (\<forall>d'. dict_get outro (ustr ''type'') \<noteq> JObj d')
        \<and> dict_get outro (ustr ''type'')
             \<notin> {JStr (ustr ''headline''), JStr (ustr ''stat''), JStr (ustr ''cta'')}"
    unfolding t1 by (simp add: ustr_def)
  from th1 [OF u1]
  have "snd (validate valid_then_unknown_text) = Inl (UnknownSlideType 2 (JStr (ustr ''outro'')))"
    unfolding t1 by simp
  moreover
  note th2 = slide_checks_interleaved [OF c2 p2 sample_story_keys sample_story_slides v2,
      THEN conjunct2, rule_format,
      of "ustr ''stat''" "[ustr ''type'', ustr ''stat_label'', ustr ''stat_value'']"
         "ustr ''narrative''" "[]"]
  have u2: "dict_get stat_no_narrative (ustr ''type'') = JStr (ustr ''stat'')
        \<and> map_of required_fields (ustr ''stat'')
            = Some ([ustr ''type'', ustr ''stat_label'', ustr ''stat_value'']
                      @ ustr ''narrative'' # [])
        \<and> set [ustr ''type'', ustr ''stat_label'', ustr ''stat_value'']
            \<subseteq> set (keys stat_no_narrative)
        \<and> ustr ''narrative'' \<notin> set (keys stat_no_narrative)"
    using t2 f2 n2 unfolding k2 by simp
  from th2 [OF u2]
  have "snd (validate missing_then_unknown_text)
          = Inl (MissingSlideField 1 (ustr ''stat'') (ustr ''narrative'')
                   [ustr ''type'', ustr ''stat_label'', ustr ''stat_value''])"
    unfolding k2 by simp
  ultimately show ?thesis
    by simp
qed

section \<open>Validation and persistence\<close>

text \<open>How the whole function relates to its first three steps.\<close>

lemma parse_and_save_failed:
  assumes "snd (validate raw) = Inl err"
  shows "parse_and_save e raw team_key = validate raw"
  using assms by (cases "validate raw") (simp add: parse_and_save_def)

lemma parse_and_save_validated:
  assumes "snd (validate raw) = Inr story"
  shows "parse_and_save e raw team_key =
           (case write_json e story team_key of
              (out2, Inl err) \<Rightarrow> (fst (validate raw) @ out2, Inl err)
            | (out2, Inr output_path) \<Rightarrow>
                (fst (validate raw) @ out2 @ [PrintSaved output_path], Inr story))"
  using assms by (cases "validate raw") (simp add: parse_and_save_def)

lemma write_json_makedirs:
  "\<exists>rest. fst (write_json e story team_key)
            = MakeDirs (path_join (module_dir e) (ustr ''output'')) # rest"
  by (simp add: write_json_def Let_def)

text \<open>The events that touch the file system.\<close>

fun is_file_event :: "event \<Rightarrow> bool" where
  "is_file_event (MakeDirs dir) = True"
| "is_file_event (OpenWrite path) = True"
| "is_file_event (DumpJson path story) = True"
| "is_file_event ev = False"

lemma validate_schema_prints: "\<forall>ev \<in> set (fst (validate_schema story)). \<not> is_file_event ev"
  by (auto simp: validate_schema_def Let_def split: sum.splits json.splits if_splits)

lemma validate_prints: "\<forall>ev \<in> set (fst (validate raw)). \<not> is_file_event ev"
  using validate_schema_prints
  by (auto simp: validate_def split: sum.splits prod.splits) (metis fst_conv)+

text \<open>Two environments: one where everything works, one where the directory cannot be made.\<close>

definition env_ok :: env where
  "env_ok = \<lparr>module_dir = ustr ''/app'', timestamp = ustr ''20260213_143022'',
              makedirs_ok = True, open_ok = True, write_ok = True\<rparr>"

definition env_readonly :: env where
  "env_readonly = \<lparr>module_dir = ustr ''/srv/'', timestamp = ustr ''20260214_090000'',
                    makedirs_ok = False, open_ok = False, write_ok = False\<rparr>"

lemma only_team_validate:
  \<open>snd (validate (ustr ''{"team":"X"}'')) = Inl (MissingField (ustr ''match'') [ustr ''team''])\<close>
  by (simp add: eval_simps)

lemma three_slides_types:
  "map slide_type_of [sample_headline, sample_stat, sample_cta]
     = [JStr (ustr ''headline''), JStr (ustr ''stat''), JStr (ustr ''cta'')]"
  by (simp add: slide_type_of_def dict_get_def sample_defs ustr_def)

lemma sample_no_surrogate:
  "\<not> has_surrogate (JObj (sample_story [sample_headline, sample_stat, sample_cta]))"
  by (simp add: sample_defs ustr_def is_surrogate_def)

section \<open>Effects\<close>

text \<open>
  Claim C4 says that validation performs no I/O at all, and in particular creates no
  directory and writes no file. In the code, validation is the first three steps of
  \<^verbatim>\<open>parse_and_save\<close>: these steps print, and the function then writes the story itself.
  On the sample story with three slides, the steps print two lines, and the call creates
  the output directory, opens the file, writes the story and prints the path.
\<close>

theorem parse_and_save_writes_file:
  "fst (validate three_slides_text) =
     [PrintCountWarning 3,
      PrintValidated 3 [JStr (ustr ''headline''), JStr (ustr ''stat''), JStr (ustr ''cta'')]]
   \<and> fst (parse_and_save env_ok three_slides_text (ustr ''lakers'')) =
     [PrintCountWarning 3,
      PrintValidated 3 [JStr (ustr ''headline''), JStr (ustr ''stat''), JStr (ustr ''cta'')],
      MakeDirs (ustr ''/app/output''),
      OpenWrite (ustr ''/app/output/lakers_story_20260213_143022.json''),
      DumpJson (ustr ''/app/output/lakers_story_20260213_143022.json'')
        (JObj (sample_story [sample_headline, sample_stat, sample_cta])),
      PrintSaved (ustr ''/app/output/lakers_story_20260213_143022.json'')]"
proof -
  have w: "write_json env_ok (JObj (sample_story [sample_headline, sample_stat, sample_cta]))
             (ustr ''lakers'') =
     ([MakeDirs (ustr ''/app/output''),
       OpenWrite (ustr ''/app/output/lakers_story_20260213_143022.json''),
       DumpJson (ustr ''/app/output/lakers_story_20260213_143022.json'')
         (JObj (sample_story [sample_headline, sample_stat, sample_cta]))],
      Inr (ustr ''/app/output/lakers_story_20260213_143022.json''))"
    using sample_no_surrogate
    by (simp add: write_json_def env_ok_def path_join_def Let_def) (simp add: ustr_def)
  show ?thesis
    by (simp add: parse_and_save_def three_slides_validate [unfolded three_slides_types] w)
qed

text \<open>
  Claim C4 as amended. The cleaning, decoding and schema-validation steps touch no file
  and no directory: besides their result they only print (the slide-count warning and
  the confirmation). \<^verbatim>\<open>parse_and_save\<close> itself persists the story. When validation fails
  it does nothing more than validation did. When validation succeeds it goes on to create
  the output directory next to the module, and, where the file system lets it and the
  story can be encoded, it opens \<^verbatim>\<open><team_key>_story_<timestamp>.json\<close> there, writes the
  story, prints the path and returns the story.
\<close>

theorem persistence_after_validation:
  "(\<forall>ev \<in> set (fst (validate raw)). \<not> is_file_event ev)
   \<and> (\<forall>err. snd (validate raw) = Inl err \<longrightarrow> parse_and_save e raw team_key = validate raw)
   \<and> (\<forall>story. snd (validate raw) = Inr story \<longrightarrow>
         (\<exists>rest. fst (parse_and_save e raw team_key)
                   = fst (validate raw) @ MakeDirs (path_join (module_dir e) (ustr ''output'')) # rest))
   \<and> (\<forall>story. snd (validate raw) = Inr story \<and> makedirs_ok e \<and> open_ok e \<and> write_ok e
               \<and> \<not> has_surrogate story \<longrightarrow>
         (let output_path = path_join (path_join (module_dir e) (ustr ''output''))
                              (team_key @ ustr ''_story_'' @ timestamp e @ ustr ''.json'')
          in parse_and_save e raw team_key =
               (fst (validate raw)
                  @ [MakeDirs (path_join (module_dir e) (ustr ''output'')), OpenWrite output_path,
                     DumpJson output_path story, PrintSaved output_path],
                Inr story)))"
proof (intro conjI allI impI)
  show "\<forall>ev \<in> set (fst (validate raw)). \<not> is_file_event ev"
    by (rule validate_prints)
next
  fix err
  assume "snd (validate raw) = Inl err"
  then show "parse_and_save e raw team_key = validate raw"
    by (rule parse_and_save_failed)
next
  fix story
  assume v: "snd (validate raw) = Inr story"
  from write_json_makedirs [of e story team_key] obtain rest
    where "fst (write_json e story team_key)
             = MakeDirs (path_join (module_dir e) (ustr ''output'')) # rest"
    by blast
  then show "\<exists>rest. fst (parse_and_save e raw team_key)
                   = fst (validate raw) @ MakeDirs (path_join (module_dir e) (ustr ''output'')) # rest"
    by (cases "write_json e story team_key") (auto simp: parse_and_save_validated [OF v] split: sum.splits)
next
  fix story
  assume h: "snd (validate raw) = Inr story \<and> makedirs_ok e \<and> open_ok e \<and> write_ok e
               \<and> \<not> has_surrogate story"
  then have v: "snd (validate raw) = Inr story"
    by simp
  from h show "let output_path = path_join (path_join (module_dir e) (ustr ''output''))
                              (team_key @ ustr ''_story_'' @ timestamp e @ ustr ''.json'')
          in parse_and_save e raw team_key =
               (fst (validate raw)
                  @ [MakeDirs (path_join (module_dir e) (ustr ''output'')), OpenWrite output_path,
                     DumpJson output_path story, PrintSaved output_path],
                Inr story)"
    by (simp add: parse_and_save_validated [OF v] write_json_def Let_def)
qed

theorem persistence_after_validation_witness:
  \<open>parse_and_save env_readonly (ustr ''{"team":"X"}'') (ustr ''manutd'')
      = validate (ustr ''{"team":"X"}'')
   \<and> (\<exists>rest. fst (parse_and_save env_readonly three_slides_text (ustr ''manutd''))
                = fst (validate three_slides_text) @ MakeDirs (ustr ''/srv/output'') # rest)
   \<and> parse_and_save env_ok three_slides_text (ustr ''lakers'') =
       (fst (validate three_slides_text)
          @ [MakeDirs (ustr ''/app/output''),
             OpenWrite (ustr ''/app/output/lakers_story_20260213_143022.json''),
             DumpJson (ustr ''/app/output/lakers_story_20260213_143022.json'')
               (JObj (sample_story [sample_headline, sample_stat, sample_cta])),
             PrintSaved (ustr ''/app/output/lakers_story_20260213_143022.json'')],
        Inr (JObj (sample_story [sample_headline, sample_stat, sample_cta])))\<close>
proof -
  have ok: "snd (validate three_slides_text)
              = Inr (JObj (sample_story [sample_headline, sample_stat, sample_cta]))"
    by (simp add: three_slides_validate)
  have p1: "path_join (module_dir env_readonly) (ustr ''output'') = ustr ''/srv/output''"
    by (simp add: path_join_def env_readonly_def ustr_def)
  have p2: "path_join (module_dir env_ok) (ustr ''output'') = ustr ''/app/output''"
    by (simp add: path_join_def env_ok_def ustr_def)
  have p3: "path_join (ustr ''/app/output'')
              (ustr ''lakers'' @ ustr ''_story_'' @ timestamp env_ok @ ustr ''.json'')
              = ustr ''/app/output/lakers_story_20260213_143022.json''"
    by (simp add: path_join_def env_ok_def ustr_def)
  have fl: "makedirs_ok env_ok \<and> open_ok env_ok \<and> write_ok env_ok"
    by (simp add: env_ok_def)
  note a = persistence_after_validation [of \<open>ustr ''{"team":"X"}''\<close> env_readonly "ustr ''manutd''",
      THEN conjunct2, THEN conjunct1, rule_format, OF only_team_validate]
  note b = persistence_after_validation [of three_slides_text env_readonly "ustr ''manutd''",
      THEN conjunct2, THEN conjunct2, THEN conjunct1, rule_format, OF ok]
  note c = persistence_after_validation [of three_slides_text env_ok "ustr ''lakers''",
      THEN conjunct2, THEN conjunct2, THEN conjunct2, rule_format,
      of "JObj (sample_story [sample_headline, sample_stat, sample_cta])"]
  from ok fl sample_no_surrogate c
  have c': "parse_and_save env_ok three_slides_text (ustr ''lakers'') =
       (fst (validate three_slides_text)
          @ [MakeDirs (ustr ''/app/output''),
             OpenWrite (ustr ''/app/output/lakers_story_20260213_143022.json''),
             DumpJson (ustr ''/app/output/lakers_story_20260213_143022.json'')
               (JObj (sample_story [sample_headline, sample_stat, sample_cta])),
             PrintSaved (ustr ''/app/output/lakers_story_20260213_143022.json'')],
        Inr (JObj (sample_story [sample_headline, sample_stat, sample_cta])))"
    unfolding p2 Let_def p3 by simp
  from a b c' show ?thesis
    unfolding p1 by simp
qed

section \<open>Facts about fence removal\<close>

text \<open>Whether three backticks in a row occur anywhere in a text.\<close>

fun has_fence :: "ustring \<Rightarrow> bool" where
  "has_fence [] = False"
| "has_fence (c # cs) = (starts_with fence (c # cs) \<or> has_fence cs)"

lemma starts_with_append_notin:
  "c \<notin> set p \<Longrightarrow> starts_with p (x @ c # b) = starts_with p x"
proof (induction p arbitrary: x)
  case Nil
  then show ?case by simp
next
  case (Cons q p)
  then show ?case by (cases x) auto
qed

lemma sub_open_fence_keep: "\<not> starts_with fence (c # cs) \<Longrightarrow> sub_open_fence (c # cs) = c # sub_open_fence cs"
  by simp

text \<open>The first substitution only removes characters.\<close>

lemma set_drop_json: "set (drop_json s) \<subseteq> set s"
  by (auto simp: drop_json_def dest: in_set_dropD)

lemma set_sub_open_fence: "set (sub_open_fence s) \<subseteq> set s"
proof (induction s rule: sub_open_fence.induct)
  case 1
  then show ?case by simp
next
  case (2 c cs)
  show ?case
  proof (cases "starts_with fence (c # cs)")
    case True
    have "set (dropWhile is_space (drop_json (drop 3 (c # cs)))) \<subseteq> set (c # cs)"
      using set_dropWhileD set_drop_json in_set_dropD by fast
    with True "2.IH"(1) show ?thesis
      by (simp del: drop_Suc_Cons)
  next
    case False
    with "2.IH"(2) show ?thesis
      by auto
  qed
qed

text \<open>After the first substitution no fence is left.\<close>

lemma sub_open_fence_no_fence: "\<not> has_fence (sub_open_fence s)"
proof (induction s rule: sub_open_fence.induct)
  case 1
  then show ?case by simp
next
  case (2 c cs)
  show ?case
  proof (cases "starts_with fence (c # cs)")
    case True
    with "2.IH"(1) show ?thesis
      by simp
  next
    case False
    have "\<not> starts_with fence (c # sub_open_fence cs)"
    proof (cases cs)
      case Nil
      then show ?thesis by (simp add: fence_def)
    next
      case (Cons d ds)
      show ?thesis
      proof (cases ds)
        case Nil
        with Cons show ?thesis by (simp add: fence_def)
      next
        case (Cons e es)
        with \<open>cs = d # ds\<close> False show ?thesis
          by (auto simp: fence_def)
      qed
    qed
    with False "2.IH"(2) show ?thesis
      by simp
  qed
qed

text \<open>So the second substitution, which looks for a fence, finds nothing to remove.\<close>

lemma sub_close_fence_id: "\<not> has_fence t \<Longrightarrow> sub_close_fence t = t"
  by (induction t) auto

lemma cleaned_text: "sub_close_fence (sub_open_fence s) = sub_open_fence s"
  by (rule sub_close_fence_id) (rule sub_open_fence_no_fence)

text \<open>A \<^verbatim>\<open>{\<close> stops every match that begins before it.\<close>

lemma drop_json_append_brace: "drop_json (x @ LBRACE # b) = drop_json x @ LBRACE # b"
proof (cases "starts_with [106, 115, 111, 110] x")
  case True
  then have "4 \<le> length x"
    by (cases x; cases "tl x"; cases "tl (tl x)"; cases "tl (tl (tl x))") auto
  with True show ?thesis
    by (simp add: drop_json_def starts_with_append_notin)
next
  case False
  then show ?thesis
    by (simp add: drop_json_def starts_with_append_notin)
qed

lemma dropWhile_space_append_brace:
  "dropWhile is_space (x @ LBRACE # b) = dropWhile is_space x @ LBRACE # b"
  by (induction x) (simp_all add: not_space_braces)

lemma sub_open_fence_append_brace:
  "sub_open_fence (a @ LBRACE # b) = sub_open_fence a @ sub_open_fence (LBRACE # b)"
proof (induction a rule: sub_open_fence.induct)
  case 1
  then show ?case by simp
next
  case (2 c cs)
  have sw: "starts_with fence ((c # cs) @ LBRACE # b) = starts_with fence (c # cs)"
    by (rule starts_with_append_notin) (simp add: fence_def)
  show ?case
  proof (cases "starts_with fence (c # cs)")
    case True
    then have len: "3 \<le> length (c # cs)"
      by (cases cs; cases "tl cs") (auto simp: fence_def)
    then have "drop 3 ((c # cs) @ LBRACE # b) = drop 3 (c # cs) @ LBRACE # b"
      by simp
    then have "dropWhile is_space (drop_json (drop 3 ((c # cs) @ LBRACE # b)))
                 = dropWhile is_space (drop_json (drop 3 (c # cs))) @ LBRACE # b"
      by (simp only: drop_json_append_brace dropWhile_space_append_brace)
    moreover have "sub_open_fence ((c # cs) @ LBRACE # b)
                 = sub_open_fence (dropWhile is_space (drop_json (drop 3 ((c # cs) @ LBRACE # b))))"
      using sw True by (simp del: drop_Suc_Cons)
    moreover have "sub_open_fence (c # cs)
                 = sub_open_fence (dropWhile is_space (drop_json (drop 3 (c # cs))))"
      using True by (simp del: drop_Suc_Cons)
    ultimately show ?thesis
      using "2.IH"(1) [OF True] by simp
  next
    case False
    with sw have "sub_open_fence ((c # cs) @ LBRACE # b) = c # sub_open_fence (cs @ LBRACE # b)"
      by simp
    with False "2.IH"(2) show ?thesis
      by simp
  qed
qed

text \<open>A text without a fence that does not end in a backtick is copied as it is.\<close>

lemma no_fence_append:
  assumes "\<not> has_fence a" "a \<noteq> []" "last a \<noteq> BACKTICK"
  shows "\<not> starts_with fence (a @ b)"
proof (cases a)
  case Nil
  with assms show ?thesis by simp
next
  case a1: (Cons c1 r1)
  show ?thesis
  proof (cases r1)
    case Nil
    with a1 assms show ?thesis by (auto simp: fence_def)
  next
    case a2: (Cons c2 r2)
    show ?thesis
    proof (cases r2)
      case Nil
      with a1 a2 assms show ?thesis by (auto simp: fence_def)
    next
      case (Cons c3 r3)
      with a1 a2 assms show ?thesis by (auto simp: fence_def)
    qed
  qed
qed

lemma sub_open_fence_copy:
  "\<not> has_fence a \<Longrightarrow> a \<noteq> [] \<Longrightarrow> last a \<noteq> BACKTICK \<Longrightarrow>
     sub_open_fence (a @ b) = a @ sub_open_fence b"
proof (induction a)
  case Nil
  then show ?case by simp
next
  case (Cons c a)
  from no_fence_append [OF Cons.prems] have nf: "\<not> starts_with fence (c # a @ b)"
    by simp
  show ?case
  proof (cases "a = []")
    case True
    with nf show ?thesis by simp
  next
    case False
    with Cons.prems have "\<not> has_fence a" "last a \<noteq> BACKTICK"
      by auto
    with Cons.IH False have "sub_open_fence (a @ b) = a @ sub_open_fence b"
      by simp
    with nf show ?thesis by simp
  qed
qed

section \<open>Facts about extraction\<close>

lemma py_find_append: "c \<notin> set x \<Longrightarrow> py_find c (x @ c # r) = Some (length x)"
  by (induction x) auto

lemma py_rfind_append: "c \<notin> set y \<Longrightarrow> py_rfind c (x @ c # y) = Some (length x)"
proof (induction x)
  case Nil
  then have "py_rfind c y = None"
    by (simp add: py_rfind_None)
  then show ?case by simp
next
  case (Cons a x)
  then show ?case by simp
qed

lemma dropWhile_append_stop: "\<not> P c \<Longrightarrow> dropWhile P (xs @ c # ys) = dropWhile P xs @ c # ys"
  by (induction xs) simp_all

lemma py_strip_around:
  assumes "\<not> is_space l" "\<not> is_space r"
  shows "py_strip (pre @ l # mid @ r # post)
           = dropWhile is_space pre @ l # mid @ r # rev (dropWhile is_space (rev post))"
proof -
  have a: "dropWhile is_space (pre @ l # mid @ r # post) = dropWhile is_space pre @ l # mid @ r # post"
    using assms(1) by (rule dropWhile_append_stop)
  have b: "dropWhile is_space (rev post @ r # rev mid @ l # rev (dropWhile is_space pre))
         = dropWhile is_space (rev post) @ r # rev mid @ l # rev (dropWhile is_space pre)"
    using assms(2) by (rule dropWhile_append_stop)
  show ?thesis
    by (simp add: py_strip_def a b)
qed

text \<open>
  The heart of the cleaning step: a text that runs from a \<^verbatim>\<open>{\<close> to a \<^verbatim>\<open>}\<close> and holds no
  fence is recovered from between any text without \<^verbatim>\<open>{\<close> and any text without \<^verbatim>\<open>}\<close>.
\<close>

lemma clean_response_wrapped:
  assumes "\<not> has_fence (LBRACE # mid @ [RBRACE])"
    and "LBRACE \<notin> set pre"
    and "RBRACE \<notin> set post"
  shows "clean_response (pre @ (LBRACE # mid @ [RBRACE]) @ post) = Inr (LBRACE # mid @ [RBRACE])"
proof -
  let ?core = "LBRACE # mid @ [RBRACE]"
  define pre' where "pre' = dropWhile is_space pre"
  define post' where "post' = rev (dropWhile is_space (rev post))"
  define x where "x = sub_open_fence pre'"
  define y where "y = sub_open_fence post'"
  have s1: "py_strip (pre @ ?core @ post) = pre' @ ?core @ post'"
    using py_strip_around [of LBRACE RBRACE pre mid post]
    by (simp add: not_space_braces pre'_def post'_def)
  have "sub_open_fence (?core @ post') = ?core @ y"
    unfolding y_def using assms(1) by (intro sub_open_fence_copy) simp_all
  then have s2: "sub_open_fence (pre' @ ?core @ post') = x @ ?core @ y"
    using sub_open_fence_append_brace [of pre' "mid @ [RBRACE] @ post'"]
    by (simp add: x_def)
  have "set pre' \<subseteq> set pre"
    unfolding pre'_def using set_dropWhileD by fast
  with set_sub_open_fence [of pre'] assms(2) have lx: "LBRACE \<notin> set x"
    unfolding x_def by blast
  have "set post' \<subseteq> set post"
    unfolding post'_def using set_dropWhileD [of _ is_space "rev post"] by auto
  with set_sub_open_fence [of post'] assms(3) have ry: "RBRACE \<notin> set y"
    unfolding y_def by blast
  have f: "py_find LBRACE (x @ ?core @ y) = Some (length x)"
    using py_find_append [OF lx, of "mid @ [RBRACE] @ y"] by simp
  have r: "py_rfind RBRACE (x @ ?core @ y) = Some (length x + length mid + 1)"
    using py_rfind_append [OF ry, of "x @ LBRACE # mid"] by simp
  have sl: "py_slice (x @ ?core @ y) (length x) (length x + length mid + 1 + 1) = ?core"
    by (simp add: py_slice_def)
  have st: "py_strip ?core = ?core"
    by (rule py_strip_id) (simp_all add: not_space_braces)
  show ?thesis
    by (simp only: clean_response_def Let_def s1 s2 cleaned_text f r sl st prod.case option.case)
qed

section \<open>Wrapped responses\<close>

text \<open>A story with one headline slide, and a story whose call-to-action quotes a fence.\<close>

definition one_headline_text :: ustring where
  "one_headline_text = sample_story_text sample_headline_text"

definition fenced_cta_text :: ustring where
  \<open>fenced_cta_text =
     sample_story_text (ustr ''{"type":"cta","text":"Run ```now```","subtext":"More soon."}'')\<close>

definition fenced_cta :: "ustring \<Rightarrow> json" where
  "fenced_cta text =
     JObj [(ustr ''type'', JStr (ustr ''cta'')), (ustr ''text'', JStr text),
           (ustr ''subtext'', JStr (ustr ''More soon.''))]"

lemma one_headline_decode:
  "json_loads one_headline_text = Some (JObj (sample_story [sample_headline]))"
  by (simp add: one_headline_text_def sample_defs eval_simps)

lemma one_headline_schema:
  "snd (validate_schema (JObj (sample_story [sample_headline]))) = Inr ()"
proof -
  have "check_slides 0 [sample_headline] = Inr ()"
    unfolding check_slides_ok by (simp add: sample_slides_valid)
  with validate_schema_slides [OF sample_story_keys sample_story_slides, of "[sample_headline]"]
  show ?thesis
    by simp
qed

text \<open>
  Claim C1 says that a valid story is recovered from every wrapping: fenced or not, after
  an arbitrary preamble, before trailing text without braces. Two responses show where
  the code does otherwise. A preamble that holds a \<^verbatim>\<open>{\<close> moves the start of the slice into
  the preamble, and decoding fails. And a story whose own text quotes a fence is changed
  by the fence removal even without any wrapping: the story that comes back is not the
  one the text decodes to.
\<close>

theorem wrapped_story_not_always_recovered:
  \<open>json_loads one_headline_text = Some (JObj (sample_story [sample_headline]))
   \<and> snd (validate_schema (JObj (sample_story [sample_headline]))) = Inr ()
   \<and> snd (validate (ustr ''Note {draft}: '' @ one_headline_text))
       = Inl (MalformedJson (ustr ''{draft}: '' @ one_headline_text))
   \<and> json_loads fenced_cta_text = Some (JObj (sample_story [fenced_cta (ustr ''Run ```now```'')]))
   \<and> snd (validate_schema (JObj (sample_story [fenced_cta (ustr ''Run ```now```'')]))) = Inr ()
   \<and> snd (validate fenced_cta_text) = Inr (JObj (sample_story [fenced_cta (ustr ''Run now'')]))\<close>
proof (intro conjI)
  show "json_loads one_headline_text = Some (JObj (sample_story [sample_headline]))"
    by (rule one_headline_decode)
  show "snd (validate_schema (JObj (sample_story [sample_headline]))) = Inr ()"
    by (rule one_headline_schema)
  show \<open>snd (validate (ustr ''Note {draft}: '' @ one_headline_text))
       = Inl (MalformedJson (ustr ''{draft}: '' @ one_headline_text))\<close>
    by (simp add: one_headline_text_def sample_defs eval_simps)
  show \<open>json_loads fenced_cta_text = Some (JObj (sample_story [fenced_cta (ustr ''Run ```now```'')]))\<close>
    by (simp add: fenced_cta_text_def fenced_cta_def sample_defs eval_simps)
  show \<open>snd (validate_schema (JObj (sample_story [fenced_cta (ustr ''Run ```now```'')]))) = Inr ()\<close>
    by (simp add: fenced_cta_def sample_defs eval_simps)
  show \<open>snd (validate fenced_cta_text) = Inr (JObj (sample_story [fenced_cta (ustr ''Run now'')]))\<close>
    by (simp add: fenced_cta_text_def fenced_cta_def sample_defs eval_simps)
qed

text \<open>
  Claim C1 as amended. Take a valid story as JSON text that starts with \<^verbatim>\<open>{\<close>, ends with
  \<^verbatim>\<open>}\<close> and nowhere holds three backticks in a row. Put before it any text without \<^verbatim>\<open>{\<close>
  and after it any text without \<^verbatim>\<open>}\<close>: whitespace, prose, fences with or without a
  language tag. Cleaning returns exactly the JSON text, and validation succeeds with the
  object that the JSON text decodes to.
\<close>

theorem wrapped_story_validates:
  assumes "core \<noteq> []" "hd core = LBRACE" "last core = RBRACE"
    and "\<not> has_fence core"
    and "LBRACE \<notin> set pre"
    and "RBRACE \<notin> set post"
    and "json_loads core = Some story"
    and "snd (validate_schema story) = Inr ()"
  shows "clean_response (pre @ core @ post) = Inr core
       \<and> snd (validate (pre @ core @ post)) = Inr story"
proof -
  from assms(1,2) obtain r where cr: "core = LBRACE # r"
    by (cases core) auto
  with assms(3) have "r \<noteq> []"
    by auto
  with cr assms(3) have "core = LBRACE # butlast r @ [RBRACE]"
    by (metis append_butlast_last_id last_ConsR)
  then obtain mid where core: "core = LBRACE # mid @ [RBRACE]"
    by blast
  have c: "clean_response (pre @ core @ post) = Inr core"
    using clean_response_wrapped [of mid pre post] assms(4,5,6) unfolding core by simp
  have p: "parse_json core = Inr story"
    using assms(7) by (simp add: parse_json_def)
  from validate_decoded [OF c p] assms(8) have "snd (validate (pre @ core @ post)) = Inr story"
    by (cases "validate_schema story") auto
  with c show ?thesis
    by simp
qed

theorem wrapped_story_validates_witness:
  \<open>clean_response ((ustr ''Sure! ```json'' @ [10]) @ one_headline_text @ ([10] @ ustr ''```''))
     = Inr one_headline_text
   \<and> snd (validate ((ustr ''Sure! ```json'' @ [10]) @ one_headline_text @ ([10] @ ustr ''```'')))
     = Inr (JObj (sample_story [sample_headline]))\<close>
proof -
  have ne: "one_headline_text \<noteq> []"
    by (simp add: one_headline_text_def sample_defs ustr_def)
  have h: "hd one_headline_text = LBRACE"
    by (simp add: one_headline_text_def sample_defs ustr_def)
  have l: "last one_headline_text = RBRACE"
    by (simp add: one_headline_text_def sample_defs ustr_def)
  have nf: "\<not> has_fence one_headline_text"
    by (simp add: one_headline_text_def sample_defs ustr_def fence_def)
  have a: \<open>LBRACE \<notin> set (ustr ''Sure! ```json'' @ [10])\<close>
    by (simp add: ustr_def)
  have b: \<open>RBRACE \<notin> set ([10] @ ustr ''```'')\<close>
    by (simp add: ustr_def)
  show ?thesis
    using wrapped_story_validates [OF ne h l nf a b one_headline_decode one_headline_schema] .
qed

end
